theory Spec2Isabelle
  imports Complex_Main "HOL-Library.Multiset"
begin

section \<open>Values of the embedding\<close>

text \<open>
  The script \<^verbatim>\<open>tools/hist/fiologparser_hist.py\<close> computes with Python integers (unbounded,
  modelled as \<open>int\<close>) and with IEEE doubles held in numpy arrays. A finite double is
  modelled by the real number it stands for (rounding is not modelled); the three special
  results that numpy's division produces instead of raising are kept as values of their own.
\<close>

datatype py_error = ValueError | IndexError | KeyError | TypeError

datatype flt = Fin real | PInf | NInf | NaN

text \<open>
  numpy's true division of two finite doubles: a zero divisor does not raise, it gives
  \<open>nan\<close> for \<open>0/0\<close> and an infinity with the sign of the numerator otherwise (the zero
  divisors of this program are differences \<open>x - x\<close>, which are \<open>+0.0\<close>).
\<close>

definition np_divide :: "real \<Rightarrow> real \<Rightarrow> flt" where
  "np_divide n d =
     (if d \<noteq> 0 then Fin (n / d)
      else if n = 0 then NaN
      else if 0 < n then PInf else NInf)"

fun np_isnan :: "flt \<Rightarrow> bool" where
  "np_isnan NaN = True"
| "np_isnan _ = False"

text \<open>
  numpy pairs the elements of two one-dimensional operands by broadcasting: equal lengths
  pair elementwise, an operand of length one (or a scalar, passed here as a one-element
  list) is repeated, and any other combination raises \<open>ValueError\<close>.
\<close>

definition np_broadcast :: "'a list \<Rightarrow> 'b list \<Rightarrow> py_error + ('a \<times> 'b) list" where
  "np_broadcast xs ys =
     (if length xs = length ys then Inr (zip xs ys)
      else if length xs = 1 then Inr (map (\<lambda>y. (hd xs, y)) ys)
      else if length ys = 1 then Inr (map (\<lambda>x. (x, hd ys)) xs)
      else Inl ValueError)"

section \<open>Overlap weights\<close>

text \<open>
  \<^verbatim>\<open>
  def weights(start_ts, end_ts, start, end):
      sbounds = np.maximum(start_ts, start).astype(float)
      ebounds = np.minimum(end_ts,   end).astype(float)
      ws = (ebounds - sbounds) / (end_ts - start_ts)
      if np.any(np.isnan(ws)):
        err("WARNING: zero-length sample(s) detected. ...")
      ws[np.where(np.isnan(ws))] = 0.0;
      return ws
  \<close>
  The warning written to stderr is not part of the returned value and is left out.
\<close>

definition weights :: "real list \<Rightarrow> real list \<Rightarrow> real \<Rightarrow> real \<Rightarrow> py_error + flt list" where
  "weights start_ts end_ts start end =
     (let sbounds = map (\<lambda>s. max s start) start_ts;
          ebounds = map (\<lambda>e. min e end) end_ts
      in case np_broadcast ebounds sbounds of
           Inl err \<Rightarrow> Inl err
         | Inr num \<Rightarrow>
            (case np_broadcast end_ts start_ts of
               Inl err \<Rightarrow> Inl err
             | Inr den \<Rightarrow>
                (case np_broadcast (map (\<lambda>(e, s). e - s) num) (map (\<lambda>(e, s). e - s) den) of
                   Inl err \<Rightarrow> Inl err
                 | Inr nd \<Rightarrow>
                     Inr (map (\<lambda>w. if np_isnan w then Fin 0 else w)
                            (map (\<lambda>(n, d). np_divide n d) nd)))))"

section \<open>Decoding a bin index into latency bounds\<close>

text \<open>
  \<^verbatim>\<open>
  def _plat_idx_to_val(idx, edge=0.5, FIO_IO_U_PLAT_BITS=6, FIO_IO_U_PLAT_VAL=64):
      if (idx < (FIO_IO_U_PLAT_VAL << 1)):
          return idx
      error_bits = (idx >> FIO_IO_U_PLAT_BITS) - 1
      base = 1 << (error_bits + FIO_IO_U_PLAT_BITS)
      k = idx % FIO_IO_U_PLAT_VAL
      return base + ((k + edge) * (1 << error_bits))
  \<close>
  No caller passes the two keyword parameters, so they are the constants of their defaults.
  Past the first branch \<open>idx \<ge> 128\<close>, so both shift counts are positive. The integers are
  Python's; \<open>main\<close> passes numpy 64-bit integers, which agree with them as long as
  \<open>1 << (error_bits + 6)\<close> fits, that is for every \<open>idx < 64 * 58\<close>.
\<close>

definition FIO_IO_U_PLAT_BITS :: nat where
  "FIO_IO_U_PLAT_BITS = 6"

definition FIO_IO_U_PLAT_VAL :: int where
  "FIO_IO_U_PLAT_VAL = 64"

definition plat_idx_to_val :: "int \<Rightarrow> real \<Rightarrow> real" where
  "plat_idx_to_val idx edge =
     (if idx < push_bit 1 FIO_IO_U_PLAT_VAL then of_int idx
      else
        let error_bits = drop_bit FIO_IO_U_PLAT_BITS idx - 1;
            base = push_bit (nat (error_bits + int FIO_IO_U_PLAT_BITS)) (1::int);
            k = idx mod FIO_IO_U_PLAT_VAL
        in of_int base + (of_int k + edge) * of_int (push_bit (nat error_bits) (1::int)))"

text \<open>
  \<^verbatim>\<open>
  def plat_idx_to_val_coarse(idx, coarseness, edge=0.5):
      stride = 1 << coarseness
      idx = idx * stride
      lower = _plat_idx_to_val(idx, edge=0.0)
      upper = _plat_idx_to_val(idx + stride, edge=1.0)
      return lower + (upper - lower) * edge
  \<close>
  \<open>coarseness\<close> is \<open>int(np.log2(max_cols / hist_cols))\<close> with \<open>hist_cols\<close> dividing \<open>max_cols\<close>,
  a natural number.
\<close>

definition plat_idx_to_val_coarse :: "int \<Rightarrow> nat \<Rightarrow> real \<Rightarrow> real" where
  "plat_idx_to_val_coarse idx coarseness edge =
     (let stride = push_bit coarseness (1::int);
          idx' = idx * stride;
          lower = plat_idx_to_val idx' 0;
          upper = plat_idx_to_val (idx' + stride) 1
      in lower + (upper - lower) * edge)"

text \<open>
  The three tables that \<open>main\<close> fills once, for \<open>hist_cols\<close> histogram columns:
  \<^verbatim>\<open>
  bin_vals       = np.array(map(lambda x: plat_idx_to_val_coarse(x, coarseness),      np.arange(__HIST_COLUMNS)), dtype=float)
  lower_bin_vals = np.array(map(lambda x: plat_idx_to_val_coarse(x, coarseness, 0.0), np.arange(__HIST_COLUMNS)), dtype=float)
  upper_bin_vals = np.array(map(lambda x: plat_idx_to_val_coarse(x, coarseness, 1.0), np.arange(__HIST_COLUMNS)), dtype=float)
  \<close>
\<close>

record bin_tables =
  bin_vals :: "real list"
  lower_bin_vals :: "real list"
  upper_bin_vals :: "real list"

definition make_bin_tables :: "nat \<Rightarrow> nat \<Rightarrow> bin_tables" where
  "make_bin_tables hist_cols coarseness =
     \<lparr> bin_vals = map (\<lambda>x. plat_idx_to_val_coarse (int x) coarseness (1 / 2)) [0..<hist_cols],
       lower_bin_vals = map (\<lambda>x. plat_idx_to_val_coarse (int x) coarseness 0) [0..<hist_cols],
       upper_bin_vals = map (\<lambda>x. plat_idx_to_val_coarse (int x) coarseness 1) [0..<hist_cols] \<rparr>"

section \<open>Merging the log files\<close>

text \<open>
  A row of a log file is the list of its integer columns: the end time, two further
  columns, then the histogram counts. The pandas reader that \<open>histogram_generator\<close> opens for
  a file with \<^verbatim>\<open>pandas.read_csv(fp, dtype=int, header=None, chunksize=sz)\<close> is modelled by the
  chunks that its successive \<^verbatim>\<open>read()\<close> calls return; the reader of an empty file is \<open>None\<close>
  (\<^verbatim>\<open>rdrs[fp] = None\<close> after the \<open>ValueError\<close> of \<^verbatim>\<open>read_csv\<close>). The file objects of \<open>fps\<close> are
  distinct, so a file is identified with its position in \<open>fps\<close>, and the two dictionaries
  \<open>arrs\<close> and \<open>rdrs\<close>, which have the same keys, are one list of pairs \<open>(arrs[fp], rdrs[fp])\<close>.
\<close>

type_synonym row = "int list"

type_synonym reader = "row list list"

type_synonym file_state = "row list option \<times> reader option"

text \<open>
  The generator object is suspended either before its first statement, or at its
  \<^verbatim>\<open>yield\<close> with the local variables \<open>arrs\<close>, \<open>rdrs\<close> and \<open>fp\<close>, or it has returned.
\<close>

datatype generator = Fresh "reader option list" | Yielded "file_state list" nat | Finished

text \<open>
  \<^verbatim>\<open>
  def read_chunk(rdr, sz):
      try:
          new_arr = rdr.read().values
      except (StopIteration, AttributeError):
          return None
      times, rws, szs = new_arr[:,0], new_arr[:,1], new_arr[:,2]
      hists = new_arr[:,__NON_HIST_COLUMNS:]
      times = times.reshape((len(times),1))
      arr = np.append(times, hists, axis=1)
      return arr
  \<close>
  \<open>sz\<close> is not used by the body. The result is paired with the reader as the call leaves it.
  Columns 0, 1 and 2 are read, which raises \<open>IndexError\<close> on narrower rows.
\<close>

definition NON_HIST_COLUMNS :: nat where
  "NON_HIST_COLUMNS = 3"

definition read_chunk :: "reader option \<Rightarrow> nat \<Rightarrow> py_error + file_state" where
  "read_chunk rdr sz =
     (case rdr of
        None \<Rightarrow> Inr (None, None)
      | Some [] \<Rightarrow> Inr (None, Some [])
      | Some (new_arr # rest) \<Rightarrow>
          if list_ex (\<lambda>r. length r < NON_HIST_COLUMNS) new_arr then Inl IndexError
          else Inr (Some (map (\<lambda>r. hd r # drop NON_HIST_COLUMNS r) new_arr), Some rest))"

text \<open>
  \<^verbatim>\<open>arrs = {fp: read_chunk(rdr, sz) for fp,rdr in rdrs.items()}\<close>
\<close>

fun read_chunks :: "reader option list \<Rightarrow> nat \<Rightarrow> py_error + file_state list" where
  "read_chunks [] sz = Inr []"
| "read_chunks (rdr # rdrs) sz =
     (case read_chunk rdr sz of
        Inl e \<Rightarrow> Inl e
      | Inr f \<Rightarrow> (case read_chunks rdrs sz of Inl e \<Rightarrow> Inl e | Inr fs \<Rightarrow> Inr (f # fs)))"

text \<open>
  \<^verbatim>\<open>
  def get_min(fps, arrs):
      return min([fp for fp in fps if not arrs[fp] is None], key=lambda fp: arrs.get(fp)[0][0])
  \<close>
  \<open>first_time\<close> is the key \<^verbatim>\<open>arr[0][0]\<close>, which raises \<open>IndexError\<close> on an array without rows.
  Python's \<open>min\<close> raises \<open>ValueError\<close> on an empty list, and otherwise keeps the first of the
  elements with the least key: it replaces its candidate only by a strictly smaller one.
\<close>

fun first_time :: "row list \<Rightarrow> int option" where
  "first_time ((t # _) # _) = Some t"
| "first_time _ = None"

fun min_by :: "('a \<Rightarrow> int) \<Rightarrow> 'a \<Rightarrow> 'a list \<Rightarrow> 'a" where
  "min_by key m [] = m"
| "min_by key m (x # xs) = min_by key (if key x < key m then x else m) xs"

definition get_min :: "nat list \<Rightarrow> file_state list \<Rightarrow> py_error + nat" where
  "get_min fps fs =
     (case filter (\<lambda>fp. fst (fs ! fp) \<noteq> None) fps of
        [] \<Rightarrow> Inl ValueError
      | c # cs \<Rightarrow>
          if list_ex (\<lambda>fp. first_time (the (fst (fs ! fp))) = None) (c # cs) then Inl IndexError
          else Inr (min_by (\<lambda>fp. the (first_time (the (fst (fs ! fp))))) c cs))"

text \<open>\<^verbatim>\<open>np.insert(row, pos, v)\<close>, for a position within the row.\<close>

definition np_insert :: "row \<Rightarrow> nat \<Rightarrow> int \<Rightarrow> row" where
  "np_insert r pos v = take pos r @ [v] @ drop pos r"

text \<open>
  \<^verbatim>\<open>
      while True:
          try:
              fp = get_min(fps, arrs)
          except ValueError:
              return
          arr = arrs[fp]
          yield np.insert(arr[0], 1, fps.index(fp))
          arrs[fp] = arr[1:]
          if arrs[fp].shape[0] == 0:
              arrs[fp] = read_chunk(rdrs[fp], sz)
  \<close>
  \<open>loop_head\<close> runs from the top of the loop to the \<^verbatim>\<open>yield\<close> (or the \<^verbatim>\<open>return\<close>); where
  \<open>get_min\<close> returns a file, that file's array has a first row. \<open>after_yield\<close> runs from the
  \<^verbatim>\<open>yield\<close> to the end of the loop body. \<open>gen_next\<close> is one call of \<^verbatim>\<open>next(gen)\<close>: its result is
  the yielded row, or \<open>None\<close> for \<open>StopIteration\<close>, with the generator as the call leaves it.
  A generator suspended at its \<^verbatim>\<open>yield\<close> holds a file \<open>fp\<close> of \<open>fps\<close> whose array is not \<open>None\<close>;
  on any other value of the state type \<open>after_yield\<close> gives the error that the dictionary
  lookup (\<open>KeyError\<close>) or the slice of \<open>None\<close> (\<open>TypeError\<close>) would raise.
\<close>

definition loop_head :: "file_state list \<Rightarrow> py_error + (row option \<times> generator)" where
  "loop_head fs =
     (case get_min [0..<length fs] fs of
        Inl e \<Rightarrow> if e = ValueError then Inr (None, Finished) else Inl e
      | Inr fp \<Rightarrow> Inr (Some (np_insert (hd (the (fst (fs ! fp)))) 1 (int fp)), Yielded fs fp))"

definition after_yield :: "nat \<Rightarrow> file_state list \<Rightarrow> nat \<Rightarrow> py_error + file_state list" where
  "after_yield sz fs fp =
     (if length fs \<le> fp then Inl KeyError
      else case fs ! fp of
             (None, rdr) \<Rightarrow> Inl TypeError
           | (Some arr, rdr) \<Rightarrow>
               if tl arr \<noteq> [] then Inr (fs[fp := (Some (tl arr), rdr)])
               else (case read_chunk rdr sz of
                       Inl e \<Rightarrow> Inl e
                     | Inr f \<Rightarrow> Inr (fs[fp := f])))"

definition gen_next :: "nat \<Rightarrow> generator \<Rightarrow> py_error + (row option \<times> generator)" where
  "gen_next sz g =
     (case g of
        Fresh rdrs \<Rightarrow> (case read_chunks rdrs sz of Inl e \<Rightarrow> Inl e | Inr fs \<Rightarrow> loop_head fs)
      | Yielded fs fp \<Rightarrow> (case after_yield sz fs fp of Inl e \<Rightarrow> Inl e | Inr fs' \<Rightarrow> loop_head fs')
      | Finished \<Rightarrow> Inr (None, Finished))"

text \<open>
  Every \<^verbatim>\<open>next\<close> that yields a row leaves less to do: the measure counts the rows and the
  chunks that are left.
\<close>

definition reader_weight :: "reader option \<Rightarrow> nat" where
  "reader_weight rdr = (case rdr of None \<Rightarrow> 0 | Some cs \<Rightarrow> sum_list (map (\<lambda>c. 2 + length c) cs))"

definition file_weight :: "file_state \<Rightarrow> nat" where
  "file_weight f = (case fst f of None \<Rightarrow> 0 | Some arr \<Rightarrow> 1 + length arr) + reader_weight (snd f)"

fun gen_weight :: "generator \<Rightarrow> nat" where
  "gen_weight (Fresh rdrs) = 1 + sum_list (map reader_weight rdrs)"
| "gen_weight (Yielded fs fp) = sum_list (map file_weight fs)"
| "gen_weight Finished = 0"

lemma read_chunk_weight:
  "read_chunk rdr sz = Inr f \<Longrightarrow> file_weight f \<le> reader_weight rdr"
  by (auto simp: read_chunk_def file_weight_def reader_weight_def split: option.splits list.splits if_splits)

lemma read_chunks_weight:
  "read_chunks rdrs sz = Inr fs \<Longrightarrow> sum_list (map file_weight fs) \<le> sum_list (map reader_weight rdrs)"
proof (induction rdrs arbitrary: fs)
  case Nil
  then show ?case by simp
next
  case (Cons rdr rdrs)
  then show ?case
    by (auto split: sum.splits dest!: read_chunk_weight)
qed

lemma sum_list_update_less:
  fixes w :: "'a \<Rightarrow> nat"
  assumes "i < length xs" and "w y < w (xs ! i)"
  shows "sum_list (map w (xs[i := y])) < sum_list (map w xs)"
  using assms
proof (induction xs arbitrary: i)
  case Nil
  then show ?case by simp
next
  case (Cons x xs)
  then show ?case
    by (cases i) auto
qed

lemma after_yield_weight:
  assumes "after_yield sz fs fp = Inr fs'"
  shows "sum_list (map file_weight fs') < sum_list (map file_weight fs)"
proof -
  from assms have fp: "fp < length fs"
    by (auto simp: after_yield_def split: if_splits)
  obtain arr rdr where f: "fs ! fp = (Some arr, rdr)"
    using assms fp by (cases "fs ! fp") (auto simp: after_yield_def split: option.splits)
  show ?thesis
  proof (cases "tl arr \<noteq> []")
    case True
    then have "fs' = fs[fp := (Some (tl arr), rdr)]"
      using assms fp f by (simp add: after_yield_def)
    moreover have "file_weight (Some (tl arr), rdr) < file_weight (fs ! fp)"
      using True by (cases arr) (auto simp: f file_weight_def)
    ultimately show ?thesis
      using fp by (simp add: sum_list_update_less)
  next
    case False
    then obtain f' where f': "read_chunk rdr sz = Inr f'" "fs' = fs[fp := f']"
      using assms fp f by (auto simp: after_yield_def split: sum.splits)
    have "file_weight f' \<le> reader_weight rdr"
      using f'(1) by (rule read_chunk_weight)
    also have "\<dots> < file_weight (fs ! fp)"
      by (simp add: f file_weight_def)
    finally show ?thesis
      using fp f'(2) by (simp add: sum_list_update_less)
  qed
qed

lemma loop_head_weight:
  "loop_head fs = Inr (y, g) \<Longrightarrow> gen_weight g \<le> sum_list (map file_weight fs)"
  by (auto simp: loop_head_def split: sum.splits if_splits)

lemma gen_next_weight:
  assumes "gen_next sz g = Inr (Some y, g')"
  shows "gen_weight g' < gen_weight g"
proof (cases g)
  case (Fresh rdrs)
  then obtain fs where "read_chunks rdrs sz = Inr fs" "loop_head fs = Inr (Some y, g')"
    using assms by (auto simp: gen_next_def split: sum.splits)
  then show ?thesis
    using read_chunks_weight loop_head_weight Fresh by fastforce
next
  case (Yielded fs fp)
  then obtain fs' where "after_yield sz fs fp = Inr fs'" "loop_head fs' = Inr (Some y, g')"
    using assms by (auto simp: gen_next_def split: sum.splits)
  then show ?thesis
    using after_yield_weight loop_head_weight Yielded by fastforce
next
  case Finished
  then show ?thesis
    using assms by (simp add: gen_next_def)
qed

text \<open>
  The rows that the generator yields until it stops, and the exception that stopped it,
  if one did.
\<close>

function gen_all :: "nat \<Rightarrow> generator \<Rightarrow> row list \<times> py_error option" where
  "gen_all sz g =
     (case gen_next sz g of
        Inl e \<Rightarrow> ([], Some e)
      | Inr (None, g') \<Rightarrow> ([], None)
      | Inr (Some y, g') \<Rightarrow> (let (ys, e) = gen_all sz g' in (y # ys, e)))"
  by pat_completeness auto
termination
  by (relation "measure (\<lambda>(sz, g). gen_weight g)") (auto dest: gen_next_weight)

declare gen_all.simps [simp del]

definition histogram_generator :: "reader option list \<Rightarrow> nat \<Rightarrow> row list \<times> py_error option" where
  "histogram_generator rdrs sz = gen_all sz (Fresh rdrs)"

text \<open>
  What the readers of \<open>histogram_generator\<close> return: it opens each file with
  \<^verbatim>\<open>pandas.read_csv(fp, dtype=int, header=None, chunksize=sz)\<close> and \<open>read_chunk\<close> calls the
  reader's \<^verbatim>\<open>read()\<close> without a row count. A pandas reader hands out chunks of \<open>chunksize\<close>
  rows through \<^verbatim>\<open>get_chunk()\<close> and iteration; \<^verbatim>\<open>read()\<close> without a row count returns all the
  rows that are left, whatever the chunk size, and raises \<open>StopIteration\<close> from then on. On
  an empty file \<^verbatim>\<open>read_csv\<close> raises the \<open>ValueError\<close> that \<open>histogram_generator\<close> turns into
  \<^verbatim>\<open>rdrs[fp] = None\<close>.
\<close>

definition pandas_read_csv :: "row list \<Rightarrow> nat \<Rightarrow> reader option" where
  "pandas_read_csv rows sz = (if rows = [] then None else Some [rows])"

subsection \<open>What is left of each file\<close>

text \<open>
  The rows of a file are those of its chunks, in order. A reader is well formed when no
  chunk is empty and every row has the three leading columns. \<open>pending\<close> is what the merger
  has still to emit for a file: the rows in its array, then the rows left in its reader.
  The remaining definitions describe the state of the generator in these terms.
\<close>

definition file_rows :: "reader option \<Rightarrow> row list" where
  "file_rows rdr = (case rdr of None \<Rightarrow> [] | Some chunks \<Rightarrow> concat chunks)"

definition wf_reader :: "reader option \<Rightarrow> bool" where
  "wf_reader rdr = (case rdr of None \<Rightarrow> True
     | Some chunks \<Rightarrow> list_all (\<lambda>c. c \<noteq> [] \<and> list_all (\<lambda>r. NON_HIST_COLUMNS \<le> length r) c) chunks)"

definition strip_row :: "row \<Rightarrow> row" where
  "strip_row r = hd r # drop NON_HIST_COLUMNS r"

definition pending :: "file_state \<Rightarrow> row list" where
  "pending f = (case fst f of None \<Rightarrow> [] | Some arr \<Rightarrow> arr) @ map strip_row (file_rows (snd f))"

definition wf_file :: "file_state \<Rightarrow> bool" where
  "wf_file f = (wf_reader (snd f) \<and>
     (case fst f of None \<Rightarrow> file_rows (snd f) = []
      | Some arr \<Rightarrow> arr \<noteq> [] \<and> list_all (\<lambda>r. r \<noteq> []) arr))"

definition head_time :: "row list \<Rightarrow> int" where
  "head_time rows = hd (hd rows)"

definition is_first_min :: "row list list \<Rightarrow> nat \<Rightarrow> bool" where
  "is_first_min R fp = (fp < length R \<and> R ! fp \<noteq> [] \<and>
     (\<forall>j < length R. R ! j \<noteq> [] \<longrightarrow>
         head_time (R ! fp) \<le> head_time (R ! j) \<and>
         (j < fp \<longrightarrow> head_time (R ! fp) < head_time (R ! j))))"

fun rem_gen :: "generator \<Rightarrow> row list list" where
  "rem_gen (Fresh rdrs) = map (\<lambda>rdr. map strip_row (file_rows rdr)) rdrs"
| "rem_gen (Yielded fs fp) = (map pending fs)[fp := tl (pending (fs ! fp))]"
| "rem_gen Finished = []"

fun inv_gen :: "generator \<Rightarrow> bool" where
  "inv_gen (Fresh rdrs) = list_all wf_reader rdrs"
| "inv_gen (Yielded fs fp) = (list_all wf_file fs \<and> fp < length fs \<and> fst (fs ! fp) \<noteq> None)"
| "inv_gen Finished = True"

definition tagged_mset :: "row list list \<Rightarrow> row multiset" where
  "tagged_mset R = (\<Sum>i<length R. mset (map (\<lambda>r. np_insert r 1 (int i)) (R ! i)))"

definition rec_le :: "row \<Rightarrow> row \<Rightarrow> bool" where
  "rec_le a b = (a ! 0 < b ! 0 \<or> (a ! 0 = b ! 0 \<and> a ! 1 \<le> b ! 1))"

definition sorted_rows :: "row list list \<Rightarrow> bool" where
  "sorted_rows R = (\<forall>l \<in> set R. sorted (map hd l) \<and> (\<forall>r \<in> set l. r \<noteq> []))"

subsection \<open>The generator after some calls of next\<close>

text \<open>
  \<open>gen_run sz g k\<close> is the generator after \<open>k\<close> calls of \<^verbatim>\<open>next\<close>, none of which raised an
  exception other than \<open>StopIteration\<close>. \<open>buffered\<close> gives the number of rows in each file's
  array while the generator is suspended. \<open>chunks_within sz\<close> says that no chunk that the
  reader returns has more than \<open>sz\<close> rows.
\<close>

fun gen_run :: "nat \<Rightarrow> generator \<Rightarrow> nat \<Rightarrow> py_error + generator" where
  "gen_run sz g 0 = Inr g"
| "gen_run sz g (Suc n) = (case gen_next sz g of Inl e \<Rightarrow> Inl e | Inr (y, g') \<Rightarrow> gen_run sz g' n)"

fun buffered :: "generator \<Rightarrow> nat list" where
  "buffered (Fresh rdrs) = map (\<lambda>rdr. 0) rdrs"
| "buffered (Yielded fs fp) = map (\<lambda>f. case fst f of None \<Rightarrow> 0 | Some arr \<Rightarrow> length arr) fs"
| "buffered Finished = []"

definition chunks_within :: "nat \<Rightarrow> reader option \<Rightarrow> bool" where
  "chunks_within sz rdr = (case rdr of None \<Rightarrow> True | Some chunks \<Rightarrow> list_all (\<lambda>c. length c \<le> sz) chunks)"

definition file_within :: "nat \<Rightarrow> file_state \<Rightarrow> bool" where
  "file_within sz f = ((case fst f of None \<Rightarrow> True | Some arr \<Rightarrow> length arr \<le> sz) \<and> chunks_within sz (snd f))"

fun gen_within :: "nat \<Rightarrow> nat \<Rightarrow> generator \<Rightarrow> bool" where
  "gen_within sz n (Fresh rdrs) = (length rdrs = n \<and> list_all (chunks_within sz) rdrs)"
| "gen_within sz n (Yielded fs fp) = (length fs = n \<and> list_all (file_within sz) fs)"
| "gen_within sz n Finished = True"

section \<open>Aggregating an interval\<close>

text \<open>
  Sums and products of doubles that may be infinite or \<open>nan\<close>, as IEEE 754 defines them
  (overflow of finite operands is not modelled).
\<close>

fun np_add :: "flt \<Rightarrow> flt \<Rightarrow> flt" where
  "np_add NaN _ = NaN"
| "np_add _ NaN = NaN"
| "np_add (Fin a) (Fin b) = Fin (a + b)"
| "np_add PInf NInf = NaN"
| "np_add NInf PInf = NaN"
| "np_add PInf _ = PInf"
| "np_add _ PInf = PInf"
| "np_add NInf _ = NInf"
| "np_add _ NInf = NInf"

fun np_multiply :: "flt \<Rightarrow> flt \<Rightarrow> flt" where
  "np_multiply NaN _ = NaN"
| "np_multiply _ NaN = NaN"
| "np_multiply (Fin a) (Fin b) = Fin (a * b)"
| "np_multiply (Fin a) PInf = (if a = 0 then NaN else if 0 < a then PInf else NInf)"
| "np_multiply (Fin a) NInf = (if a = 0 then NaN else if 0 < a then NInf else PInf)"
| "np_multiply PInf (Fin b) = (if b = 0 then NaN else if 0 < b then PInf else NInf)"
| "np_multiply NInf (Fin b) = (if b = 0 then NaN else if 0 < b then NInf else PInf)"
| "np_multiply PInf PInf = PInf"
| "np_multiply NInf NInf = PInf"
| "np_multiply PInf NInf = NInf"
| "np_multiply NInf PInf = NInf"

text \<open>
  The rows that \<open>main\<close> buffers are a numpy array of 64-bit integers (\<^verbatim>\<open>arr.astype(int)\<close>), so
  \<^verbatim>\<open>np.sum(hs)\<close> and the running total \<open>ss_cnt\<close> are 64-bit integers: a sum outside
  \<open>[-2^63, 2^63)\<close> wraps around without raising.
\<close>

definition np_int64 :: "int \<Rightarrow> int" where
  "np_int64 x = signed_take_bit 63 x"

text \<open>Indexing an array with an array of positions, \<^verbatim>\<open>xs[idx]\<close>.\<close>

definition np_take :: "'a list \<Rightarrow> nat list \<Rightarrow> py_error + 'a list" where
  "np_take xs idx = (if list_all (\<lambda>i. i < length xs) idx then Inr (map (\<lambda>i. xs ! i) idx) else Inl IndexError)"

text \<open>\<^verbatim>\<open>xs[idx] += ws\<close> for distinct positions \<open>idx\<close> and as many addends.\<close>

fun np_add_at :: "flt list \<Rightarrow> nat list \<Rightarrow> flt list \<Rightarrow> flt list" where
  "np_add_at xs (i # idx) (w # ws) = np_add_at (xs[i := np_add (xs ! i) w]) idx ws"
| "np_add_at xs _ _ = xs"

text \<open>
  \<^verbatim>\<open>
  def update_extreme(val, fncn, new_val):
      if val is None: return new_val
      else: return fncn(val, new_val)
  \<close>
\<close>

definition update_extreme :: "real option \<Rightarrow> (real \<Rightarrow> real \<Rightarrow> real) \<Rightarrow> real \<Rightarrow> real" where
  "update_extreme val fncn new_val = (case val of None \<Rightarrow> new_val | Some v \<Rightarrow> fncn v new_val)"

text \<open>
  The options of the command line that the aggregation reads (\<open>ctx.interval\<close> is an \<open>int\<close>,
  \<open>ctx.max_latency\<close> a number), and the variables of the loop of \<open>process_interval\<close>.
\<close>

record ctx =
  interval :: int
  max_latency :: real

record interval_state =
  iHist :: "flt list"
  ss_cnt :: int
  mn_bin_val :: "real option"
  mx_bin_val :: "real option"

text \<open>
  The body of the loop of \<open>process_interval\<close>, for one row \<open>(end_time, file, hist)\<close> of
  \<open>samples\<close>:
  \<^verbatim>\<open>
        start_times = (end_time - 0.5 * ctx.interval) - bin_vals / 1000.0
        idx = np.where(start_times < iEnd)
        s_ts, l_bvs, u_bvs, hs = start_times[idx], lower_bin_vals[idx], upper_bin_vals[idx], hist[idx]
        ws = hs * weights(s_ts, end_time, iStart, iEnd)
        iHist[idx] += ws
        ss_cnt += np.sum(hs)
        idx = np.where(hs != 0)[0]
        if idx.size > 0:
            mn_bin_val = update_extreme(mn_bin_val, min, l_bvs[max(0,           idx[0]  - 1)])
            mx_bin_val = update_extreme(mx_bin_val, max, u_bvs[min(len(hs) - 1, idx[-1] + 1)])
  \<close>
  The scalar \<open>end_time\<close> is passed to \<open>weights\<close> as a one-element array.
\<close>

definition start_times_of :: "ctx \<Rightarrow> bin_tables \<Rightarrow> int \<Rightarrow> real list" where
  "start_times_of c t end_time =
     map (\<lambda>b. (of_int end_time - (1 / 2) * of_int (interval c)) - b / 1000) (bin_vals t)"

definition np_where :: "('a \<Rightarrow> bool) \<Rightarrow> 'a list \<Rightarrow> nat list" where
  "np_where P xs = filter (\<lambda>i. P (xs ! i)) [0..<length xs]"

definition process_sample ::
    "ctx \<Rightarrow> bin_tables \<Rightarrow> real \<Rightarrow> real \<Rightarrow> interval_state \<Rightarrow> int \<Rightarrow> int list \<Rightarrow> py_error + interval_state" where
  "process_sample c t iStart iEnd st end_time hist =
     (let start_times = start_times_of c t end_time;
          idx = np_where (\<lambda>s. s < iEnd) start_times;
          s_ts = map (\<lambda>i. start_times ! i) idx
      in case np_take (lower_bin_vals t) idx of Inl e \<Rightarrow> Inl e | Inr l_bvs \<Rightarrow>
         case np_take (upper_bin_vals t) idx of Inl e \<Rightarrow> Inl e | Inr u_bvs \<Rightarrow>
         case np_take hist idx of Inl e \<Rightarrow> Inl e | Inr hs \<Rightarrow>
         case weights s_ts [of_int end_time] iStart iEnd of Inl e \<Rightarrow> Inl e | Inr w \<Rightarrow>
         if \<not> list_all (\<lambda>i. i < length (iHist st)) idx then Inl IndexError
         else
           let ws = map (\<lambda>(h, x). np_multiply (Fin (of_int h)) x) (zip hs w);
               st1 = st\<lparr> iHist := np_add_at (iHist st) idx ws,
                         ss_cnt := np_int64 (ss_cnt st + np_int64 (sum_list hs)) \<rparr>;
               nz = np_where (\<lambda>h. h \<noteq> 0) hs
           in if nz \<noteq> []
              then Inr (st1\<lparr>
                     mn_bin_val := Some (update_extreme (mn_bin_val st) min
                                           (l_bvs ! nat (max 0 (int (hd nz) - 1)))),
                     mx_bin_val := Some (update_extreme (mx_bin_val st) max
                                           (u_bvs ! nat (min (int (length hs) - 1) (int (last nz) + 1)))) \<rparr>)
              else Inr st1)"

text \<open>
  \<^verbatim>\<open>
  def process_interval(ctx, samples, iStart, iEnd):
      times, files, hists = samples[:,0], samples[:,1], samples[:,2:]
      iHist = np.zeros(__HIST_COLUMNS)
      ss_cnt = 0 # number of samples affecting this interval
      mn_bin_val, mx_bin_val = None, None
      for end_time,file,hist in zip(times,files,hists):
          ...
      if ss_cnt > 0: print_all_stats(ctx, iEnd, mn_bin_val, ss_cnt, bin_vals, iHist, mx_bin_val)
  \<close>
  The function prints one line or nothing; the result of the model is the call of
  \<open>print_all_stats\<close> it makes, if any, as the record of the arguments \<open>end\<close>, \<open>mn\<close>, \<open>ss_cnt\<close>,
  \<open>vs\<close>, \<open>ws\<close> and \<open>mx\<close> of that call.
\<close>

record interval_result =
  res_end :: real
  res_mn :: "real option"
  res_ss_cnt :: int
  res_vs :: "real list"
  res_ws :: "flt list"
  res_mx :: "real option"

fun process_samples ::
    "ctx \<Rightarrow> bin_tables \<Rightarrow> real \<Rightarrow> real \<Rightarrow> interval_state \<Rightarrow> row list \<Rightarrow> py_error + interval_state" where
  "process_samples c t iStart iEnd st [] = Inr st"
| "process_samples c t iStart iEnd st (r # rs) =
     (case process_sample c t iStart iEnd st (r ! 0) (drop 2 r) of
        Inl e \<Rightarrow> Inl e
      | Inr st' \<Rightarrow> process_samples c t iStart iEnd st' rs)"

definition process_interval ::
    "ctx \<Rightarrow> nat \<Rightarrow> bin_tables \<Rightarrow> row list \<Rightarrow> real \<Rightarrow> real \<Rightarrow> py_error + interval_result option" where
  "process_interval c HIST_COLUMNS t samples iStart iEnd =
     (if list_ex (\<lambda>r. length r < 2) samples then Inl IndexError
      else
        case process_samples c t iStart iEnd
               \<lparr> iHist = replicate HIST_COLUMNS (Fin 0), ss_cnt = 0, mn_bin_val = None, mx_bin_val = None \<rparr>
               samples of
          Inl e \<Rightarrow> Inl e
        | Inr st \<Rightarrow>
            if 0 < ss_cnt st
            then Inr (Some \<lparr> res_end = iEnd, res_mn = mn_bin_val st, res_ss_cnt = ss_cnt st,
                             res_vs = bin_vals t, res_ws = iHist st, res_mx = mx_bin_val st \<rparr>)
            else Inr None)"

text \<open>
  The loop of \<open>main\<close>, after the bin tables are set up:
  \<^verbatim>\<open>
        start, end = 0, ctx.interval
        arr = np.empty(shape=(0,__TOTAL_COLUMNS - 1))
        more_data = True
        while more_data or len(arr) > 0:
            while len(arr) == 0 or arr[-1][0] < ctx.max_latency * 1000 + end:
                try:
                    new_arr = next(gen)
                except StopIteration:
                    more_data = False
                    break
                arr = np.append(arr, new_arr.reshape((1,__TOTAL_COLUMNS - 1)), axis=0)
            arr = arr.astype(int)
            if arr.size > 0:
                if start == 0 and arr[0][0] - ctx.max_latency > end:
                    start = arr[0][0] - ctx.max_latency
                    start = start - (start % ctx.interval)
                    end = start + ctx.interval
                process_interval(ctx, arr, start, end)
                idx = np.where(arr[:,0] > end)
                arr = arr[idx]
            start += ctx.interval
            end = start + ctx.interval
  \<close>
  \<open>fill\<close> is the inner loop; \<open>__TOTAL_COLUMNS - 1\<close> is \<open>__HIST_COLUMNS + 2\<close>, and \<^verbatim>\<open>reshape\<close> raises
  \<open>ValueError\<close> on a row of another length. The inner loop ends because the generator does.
  The outer loop need not end (an interval of width 0 never gets past the rows it holds), so
  its model is a partial function: \<open>None\<close> is a run that does not return. The result is the
  list of the \<open>print_all_stats\<close> calls made, and the exception that ended the run, if any.
  The remainder \<open>start % ctx.interval\<close> is numpy's, which is 0 for a zero divisor.
\<close>

function fill ::
    "ctx \<Rightarrow> nat \<Rightarrow> nat \<Rightarrow> real \<Rightarrow> row list \<Rightarrow> bool \<Rightarrow> generator \<Rightarrow> py_error + (row list \<times> bool \<times> generator)" where
  "fill c HIST_COLUMNS sz end arr more_data gen =
     (if arr = [] \<or> of_int (last arr ! 0) < max_latency c * 1000 + end
      then (case gen_next sz gen of
              Inl e \<Rightarrow> Inl e
            | Inr (None, gen') \<Rightarrow> Inr (arr, False, gen')
            | Inr (Some new_arr, gen') \<Rightarrow>
                if length new_arr \<noteq> HIST_COLUMNS + 2 then Inl ValueError
                else fill c HIST_COLUMNS sz end (arr @ [new_arr]) more_data gen')
      else Inr (arr, more_data, gen))"
  by pat_completeness auto
termination
  by (relation "measure (\<lambda>(c, H, sz, e, arr, more_data, gen). gen_weight gen)")
    (auto dest: gen_next_weight)

declare fill.simps [simp del]

definition np_mod :: "real \<Rightarrow> int \<Rightarrow> real" where
  "np_mod x m = (if m = 0 then 0 else x - of_int m * of_int \<lfloor>x / of_int m\<rfloor>)"

partial_function (option) main_loop ::
    "ctx \<Rightarrow> nat \<Rightarrow> bin_tables \<Rightarrow> nat \<Rightarrow> real \<Rightarrow> real \<Rightarrow> row list \<Rightarrow> bool \<Rightarrow> generator \<Rightarrow>
     interval_result list \<Rightarrow> (interval_result list \<times> py_error option) option" where
  "main_loop c HIST_COLUMNS t sz start end arr more_data gen out =
     (if more_data \<or> arr \<noteq> [] then
        (case fill c HIST_COLUMNS sz end arr more_data gen of
           Inl e \<Rightarrow> Some (out, Some e)
         | Inr (arr1, more_data1, gen1) \<Rightarrow>
             if arr1 \<noteq> [] then
               (let jump = (start = 0 \<and> of_int (hd arr1 ! 0) - max_latency c > end);
                    start0 = of_int (hd arr1 ! 0) - max_latency c;
                    start1 = (if jump then start0 - np_mod start0 (interval c) else start);
                    end1 = (if jump then start1 + of_int (interval c) else end)
                in case process_interval c HIST_COLUMNS t arr1 start1 end1 of
                     Inl e \<Rightarrow> Some (out, Some e)
                   | Inr res \<Rightarrow>
                       main_loop c HIST_COLUMNS t sz
                         (start1 + of_int (interval c))
                         (start1 + of_int (interval c) + of_int (interval c))
                         (filter (\<lambda>r. end1 < of_int (r ! 0)) arr1) more_data1 gen1
                         (case res of None \<Rightarrow> out | Some r \<Rightarrow> out @ [r]))
             else main_loop c HIST_COLUMNS t sz
                    (start + of_int (interval c))
                    (start + of_int (interval c) + of_int (interval c))
                    arr1 more_data1 gen1 out)
      else Some (out, None))"

declare main_loop.simps [code]

text \<open>
  \<open>main\<close>, from the point where its set-up has read the options, counted the histogram
  columns of the first file and derived the coarseness from them (the arguments
  \<open>HIST_COLUMNS\<close> and \<open>coarseness\<close>), and opened the files (\<open>rdrs\<close>, as for
  \<open>histogram_generator\<close>); \<open>buff_size\<close> is \<open>ctx.buff_size\<close>.
\<close>

definition main ::
    "ctx \<Rightarrow> nat \<Rightarrow> nat \<Rightarrow> reader option list \<Rightarrow> nat \<Rightarrow> (interval_result list \<times> py_error option) option" where
  "main c HIST_COLUMNS coarseness rdrs buff_size =
     main_loop c HIST_COLUMNS (make_bin_tables HIST_COLUMNS coarseness) buff_size
       0 (of_int (interval c)) [] True (Fresh rdrs) []"

text \<open>
  The number that \<open>process_interval\<close> adds up in \<open>ss_cnt\<close> for a buffer of rows: for each row,
  the counts of the bins whose start time is before the end of the interval (column \<open>i + 2\<close>
  of a row is its bin \<open>i\<close>).
\<close>

definition counted :: "ctx \<Rightarrow> bin_tables \<Rightarrow> real \<Rightarrow> row list \<Rightarrow> int" where
  "counted c t iEnd samples =
     sum_list (map (\<lambda>r. sum_list (map (\<lambda>i. r ! (i + 2))
                           (np_where (\<lambda>s. s < iEnd) (start_times_of c t (r ! 0))))) samples)"

section \<open>Weighted percentiles\<close>

text \<open>
  \<^verbatim>\<open>
  def weighted_percentile(percs, vs, ws):
      idx = np.argsort(vs)
      vs, ws = vs[idx], ws[idx] # weights and values sorted by value
      cdf = 100 * (ws.cumsum() - ws / 2.0) / ws.sum()
      return np.interp(percs, cdf, vs) # linear interpolation
  \<close>
  The values and weights are finite doubles, modelled as reals. The three numpy functions
  are modelled by their documented contracts. \<open>np.argsort\<close> returns positions that put the
  values in ascending order; which one of several such orders it returns when values repeat
  is numpy's choice, so the body of the function is modelled for any given \<open>idx\<close>
  (\<open>weighted_percentile_at\<close>), and \<open>np_argsort\<close> is the order that keeps equal values in place.
  \<open>cumsum\<close> gives the running sums. \<open>np.interp\<close> raises \<open>ValueError\<close> on an empty array of sample
  points or on arrays of different lengths, returns the first (last) value left (right) of
  the sample points, and otherwise interpolates linearly between the sample point \<open>j\<close> with
  \<open>xp[j] \<le> x < xp[j+1]\<close> and its successor; it is specified for non-decreasing sample points
  only, which is where scanning for \<open>j\<close> from the left finds what numpy's binary search does.
\<close>

definition np_argsort :: "real list \<Rightarrow> nat list" where
  "np_argsort vs = map snd (sort_key fst (zip vs [0..<length vs]))"

definition is_argsort :: "nat list \<Rightarrow> real list \<Rightarrow> bool" where
  "is_argsort idx vs = (mset idx = mset [0..<length vs] \<and> sorted (map (\<lambda>i. vs ! i) idx))"

fun cumsum_from :: "real \<Rightarrow> real list \<Rightarrow> real list" where
  "cumsum_from acc [] = []"
| "cumsum_from acc (x # xs) = (acc + x) # cumsum_from (acc + x) xs"

definition cumsum :: "real list \<Rightarrow> real list" where
  "cumsum xs = cumsum_from 0 xs"

fun interp_scan :: "real \<Rightarrow> (real \<times> real) list \<Rightarrow> real" where
  "interp_scan x ((x0, y0) # (x1, y1) # ps) =
     (if x < x1 then (y1 - y0) / (x1 - x0) * (x - x0) + y0
      else interp_scan x ((x1, y1) # ps))"
| "interp_scan x [(x0, y0)] = y0"
| "interp_scan x [] = 0"

definition np_interp :: "real \<Rightarrow> real list \<Rightarrow> real list \<Rightarrow> py_error + real" where
  "np_interp x xp fp =
     (if xp = [] \<or> length xp \<noteq> length fp then Inl ValueError
      else if x < hd xp then Inr (hd fp)
      else if last xp < x then Inr (last fp)
      else Inr (interp_scan x (zip xp fp)))"

fun collect :: "(py_error + 'a) list \<Rightarrow> py_error + 'a list" where
  "collect [] = Inr []"
| "collect (Inl e # rs) = Inl e"
| "collect (Inr x # rs) = (case collect rs of Inl e \<Rightarrow> Inl e | Inr xs \<Rightarrow> Inr (x # xs))"

text \<open>
  Where the weights add up to zero, the division gives \<open>nan\<close> or an infinity for every point
  of the cdf without raising, and numpy does not say what \<open>np.interp\<close> returns for such
  sample points: the model gives no result there (\<open>None\<close>).
\<close>

definition weighted_percentile_at ::
    "nat list \<Rightarrow> real list \<Rightarrow> real list \<Rightarrow> real list \<Rightarrow> (py_error + real list) option" where
  "weighted_percentile_at idx percs vs ws =
     (case np_take vs idx of Inl e \<Rightarrow> Some (Inl e) | Inr vs' \<Rightarrow>
      case np_take ws idx of Inl e \<Rightarrow> Some (Inl e) | Inr ws' \<Rightarrow>
        if ws' \<noteq> [] \<and> sum_list ws' = 0 then None
        else
          let cdf = map (\<lambda>(c, w). 100 * (c - w / 2) / sum_list ws') (zip (cumsum ws') ws')
          in if cdf = [] then Some (Inl ValueError)
             else Some (collect (map (\<lambda>p. np_interp p cdf vs') percs)))"

definition weighted_percentile :: "real list \<Rightarrow> real list \<Rightarrow> real list \<Rightarrow> (py_error + real list) option" where
  "weighted_percentile percs vs ws = weighted_percentile_at (np_argsort vs) percs vs ws"

text \<open>
  The reference that the specification compares with: the unweighted percentile of the
  values, where the \<open>k\<close>-th of the \<open>n\<close> sorted values sits at the midpoint of its step of the
  empirical distribution function, at \<open>100 * (k + 1/2) / n\<close> percent; a target at or below the
  first point or at or above the last gets that point's value, and a target between two
  neighbouring points is interpolated linearly between them.
\<close>

definition reference_percentile :: "real list \<Rightarrow> real \<Rightarrow> real" where
  "reference_percentile vs p =
     (let s = sort vs; n = length s;
          pos = (\<lambda>k. 100 * (real k + 1 / 2) / real n)
      in if p \<le> pos 0 then s ! 0
         else if pos (n - 1) \<le> p then s ! (n - 1)
         else let k = nat \<lfloor>p * real n / 100 - 1 / 2\<rfloor>
              in s ! k + (s ! (k + 1) - s ! k) * (p - pos k) / (pos (k + 1) - pos k))"

text \<open>The percentile position of the \<open>k\<close>-th of \<open>n\<close> equally weighted points.\<close>

definition step_pos :: "nat \<Rightarrow> nat \<Rightarrow> real" where
  "step_pos n k = 100 * (real k + 1 / 2) / real n"

section \<open>Properties of the overlap weights\<close>

lemma weights_elementwise:
  assumes "np_broadcast start_ts end_ts = Inr ps"
  shows "weights start_ts end_ts start end =
           Inr (map (\<lambda>(s, e). let w = np_divide (min e end - max s start) (e - s)
                               in if np_isnan w then Fin 0 else w) ps)"
proof -
  consider (eq) "length start_ts = length end_ts"
    | (l) "length start_ts \<noteq> length end_ts" "length start_ts = 1"
    | (r) "length start_ts \<noteq> length end_ts" "length start_ts \<noteq> 1" "length end_ts = 1"
    using assms by (auto simp: np_broadcast_def split: if_splits)
  then show ?thesis
  proof cases
    case eq
    then have ps: "ps = zip start_ts end_ts"
      using assms by (simp add: np_broadcast_def)
    show ?thesis
      using eq unfolding ps weights_def np_broadcast_def Let_def
      by (simp add: zip_map1 zip_map2 list_eq_iff_nth_eq)
  next
    case l
    then obtain s where s: "start_ts = [s]"
      by (cases start_ts) auto
    have ps: "ps = map (\<lambda>y. (s, y)) end_ts"
      using assms l unfolding s by (simp add: np_broadcast_def)
    show ?thesis
      using l unfolding ps s weights_def np_broadcast_def Let_def
      by (simp add: zip_map1 zip_map2 list_eq_iff_nth_eq o_def)
  next
    case r
    then obtain e where e: "end_ts = [e]"
      by (cases end_ts) auto
    have ps: "ps = map (\<lambda>x. (x, e)) start_ts"
      using assms r unfolding e by (simp add: np_broadcast_def)
    show ?thesis
      using r unfolding ps e weights_def np_broadcast_def Let_def
      by (simp add: zip_map1 zip_map2 list_eq_iff_nth_eq o_def)
  qed
qed

lemma weights_nth:
  assumes "np_broadcast start_ts end_ts = Inr ps" and "i < length ps" and "ps ! i = (s, e)"
  shows "\<exists>ws. weights start_ts end_ts start end = Inr ws \<and> length ws = length ps \<and>
           ws ! i = (let w = np_divide (min e end - max s start) (e - s)
                     in if np_isnan w then Fin 0 else w)"
  using assms by (simp add: weights_elementwise)

text \<open>
  C2 (as amended). For a span \<open>[binStart, binEnd]\<close> with \<open>binEnd > binStart\<close> the call returns,
  and the weight is \<open>(min(binEnd, intervalEnd) - max(binStart, intervalStart)) / (binEnd - binStart)\<close>
  with no clamp at zero: it equals the clamped formula of the specification, and is
  non-negative, exactly when the span is not disjoint from the interval, that is when
  \<open>max(binStart, intervalStart) \<le> min(binEnd, intervalEnd)\<close>.
\<close>

theorem weights_overlap_fraction:
  assumes "np_broadcast start_ts end_ts = Inr ps" and "i < length ps"
    and "ps ! i = (binStart, binEnd)" and "binStart < binEnd"
  shows "\<exists>ws. weights start_ts end_ts intervalStart intervalEnd = Inr ws \<and> length ws = length ps \<and>
           ws ! i = Fin ((min binEnd intervalEnd - max binStart intervalStart) / (binEnd - binStart)) \<and>
           ((ws ! i = Fin (max 0 (min binEnd intervalEnd - max binStart intervalStart) / (binEnd - binStart)))
              = (max binStart intervalStart \<le> min binEnd intervalEnd)) \<and>
           ((\<exists>r. ws ! i = Fin r \<and> 0 \<le> r) = (max binStart intervalStart \<le> min binEnd intervalEnd))"
proof -
  obtain ws where ws: "weights start_ts end_ts intervalStart intervalEnd = Inr ws"
      "length ws = length ps"
      "ws ! i = (let w = np_divide (min binEnd intervalEnd - max binStart intervalStart) (binEnd - binStart)
                 in if np_isnan w then Fin 0 else w)"
    using weights_nth [OF assms(1-3)] by blast
  have d: "0 < binEnd - binStart"
    using assms(4) by simp
  have v: "ws ! i = Fin ((min binEnd intervalEnd - max binStart intervalStart) / (binEnd - binStart))"
    using d by (simp add: ws(3) np_divide_def)
  have c: "((min binEnd intervalEnd - max binStart intervalStart) / (binEnd - binStart)
             = max 0 (min binEnd intervalEnd - max binStart intervalStart) / (binEnd - binStart))
           = (max binStart intervalStart \<le> min binEnd intervalEnd)"
    using d by (auto simp: max_def divide_simps)
  have n: "(0 \<le> (min binEnd intervalEnd - max binStart intervalStart) / (binEnd - binStart))
           = (max binStart intervalStart \<le> min binEnd intervalEnd)"
    using d by (simp add: zero_le_divide_iff)
  show ?thesis
    using ws(1,2) v c n by simp
qed

theorem weights_overlap_fraction_witness:
  "\<exists>ws. weights [0] [10] 5 30 = Inr ws \<and> length ws = 1 \<and> ws ! 0 = Fin (1 / 2)"
  using weights_overlap_fraction [of "[0]" "[10]" "[(0, 10)]" 0 0 10 5 30]
  by (auto simp: np_broadcast_def)

text \<open>
  C2 as stated fails: a span \<open>[0, 10]\<close> that ends before the interval \<open>[20, 30]\<close> starts gets the
  weight \<open>-1\<close>, where the clamped formula gives \<open>0\<close>.
\<close>

theorem weights_negative_when_disjoint:
  "weights [0] [10] 20 30 = Inr [Fin (- 1)] \<and>
   Fin (- 1) \<noteq> Fin (max 0 (min 10 30 - max 0 20) / (10 - 0))"
  by (simp add: weights_def np_broadcast_def np_divide_def)

text \<open>
  C4, evaluated where it fails: a zero-length span \<open>[5, 5]\<close> that lies before the interval
  \<open>[10, 20]\<close> has the numerator \<open>5 - 10\<close> over the divisor \<open>0\<close>; the quotient is \<open>-inf\<close>, which is
  not \<open>nan\<close>, so it is not replaced by \<open>0\<close>. No error is raised.
\<close>

theorem weights_zero_length_outside:
  "weights [5] [5] 10 20 = Inr [NInf]"
  by (simp add: weights_def np_broadcast_def np_divide_def)

lemma weights_zero_length_inside:
  assumes "np_broadcast start_ts end_ts = Inr ps" and "i < length ps" and "ps ! i = (t, t)"
    and "start \<le> t" and "t \<le> end"
  shows "\<exists>ws. weights start_ts end_ts start end = Inr ws \<and> ws ! i = Fin 0"
  using weights_nth [OF assms(1-3), of start "end"] assms(4,5)
  by (auto simp: np_divide_def)

text \<open>
  C10. When every sample has a positive-length span, the call returns and every weight is a
  finite number that is at most \<open>1\<close>.
\<close>

theorem weights_at_most_one:
  assumes "np_broadcast start_ts end_ts = Inr ps" and "\<forall>(s, e) \<in> set ps. s < e"
  shows "\<exists>ws. weights start_ts end_ts start end = Inr ws \<and> length ws = length ps \<and>
           (\<forall>w \<in> set ws. \<exists>r. w = Fin r \<and> r \<le> 1)"
proof -
  let ?f = "\<lambda>(s, e). let w = np_divide (min e end - max s start) (e - s)
                       in if np_isnan w then Fin 0 else w"
  have "\<exists>r. ?f p = Fin r \<and> r \<le> 1" if "p \<in> set ps" for p
  proof -
    obtain s e where p: "p = (s, e)"
      by (cases p)
    have "s < e"
      using assms(2) that p by auto
    then have "min e end - max s start \<le> e - s" and "0 < e - s"
      by auto
    then show ?thesis
      by (simp add: p np_divide_def)
  qed
  then show ?thesis
    by (auto simp: weights_elementwise [OF assms(1)])
qed

theorem weights_at_most_one_witness:
  "\<exists>ws. weights [0, 4] [10] 2 8 = Inr ws \<and> length ws = 2 \<and> ws ! 0 = Fin (3 / 5) \<and> ws ! 1 = Fin (2 / 3) \<and>
        (\<exists>r. ws ! 0 = Fin r \<and> r \<le> 1)"
  using weights_at_most_one [of "[0, 4]" "[10]" "[(0, 10), (4, 10)]" 2 8]
  by (simp add: np_broadcast_def weights_def np_divide_def)

section \<open>Properties of the bin decoder\<close>

lemma plat_idx_to_val_linear:
  "idx < 128 \<Longrightarrow> plat_idx_to_val idx edge = of_int idx"
  by (simp add: plat_idx_to_val_def FIO_IO_U_PLAT_VAL_def push_bit_eq_mult)

lemma plat_idx_to_val_log:
  assumes "128 \<le> idx"
  shows "plat_idx_to_val idx edge =
           (64 + of_int (idx mod 64) + edge) * 2 ^ nat (idx div 64 - 1)"
proof -
  have g: "1 \<le> idx div 64 - 1"
    using assms by linarith
  have "nat (idx div 64 - 1 + 6) = nat (idx div 64 - 1) + 6"
    using g by linarith
  then have "(2::real) ^ nat (idx div 64 - 1 + 6) = 64 * 2 ^ nat (idx div 64 - 1)"
    by (simp add: power_add)
  then show ?thesis
    using assms
    by (simp add: plat_idx_to_val_def FIO_IO_U_PLAT_VAL_def FIO_IO_U_PLAT_BITS_def
        push_bit_eq_mult drop_bit_eq_div Let_def algebra_simps)
qed

lemma divmod_64:
  "0 \<le> m \<Longrightarrow> m < 64 \<Longrightarrow> (64 * g + m) div 64 = g \<and> (64 * g + m) mod 64 = (m::int)"
  by (simp add: div_pos_pos_trivial mod_pos_pos_trivial)

lemma plat_idx_to_val_step:
  assumes "0 \<le> edge" and "edge \<le> 1"
  shows "plat_idx_to_val idx edge \<le> plat_idx_to_val (idx + 1) edge"
proof -
  consider (lin) "idx < 127" | (edge) "idx = 127" | (log) "128 \<le> idx"
    by linarith
  then show ?thesis
  proof cases
    case lin
    then show ?thesis
      by (simp add: plat_idx_to_val_linear)
  next
    case edge
    then show ?thesis
      using assms by (simp add: plat_idx_to_val_linear plat_idx_to_val_log)
  next
    case log
    define g where "g = idx div 64"
    define k where "k = idx mod 64"
    have idx: "idx = 64 * g + k" and k: "0 \<le> k" "k < 64"
      by (simp_all add: g_def k_def)
    have g: "2 \<le> g"
      using log by (simp add: g_def)
    show ?thesis
    proof (cases "k < 63")
      case True
      have "idx + 1 = 64 * g + (k + 1)"
        by (simp add: idx)
      moreover have "(64 * g + (k + 1)) div 64 = g \<and> (64 * g + (k + 1)) mod 64 = k + 1"
        using True k by (intro divmod_64) simp_all
      ultimately have "(idx + 1) div 64 = g" and "(idx + 1) mod 64 = k + 1"
        by (simp_all only:)
      then show ?thesis
        using log by (simp add: plat_idx_to_val_log g_def [symmetric] k_def [symmetric])
    next
      case False
      then have k63: "k = 63"
        using k by linarith
      have "idx + 1 = 64 * (g + 1)"
        by (simp add: idx k63)
      then have n: "(idx + 1) div 64 = g + 1" "(idx + 1) mod 64 = 0"
        by simp_all
      have "nat g = Suc (nat (g - 1))"
        using g by linarith
      then have p: "(2::real) ^ nat g = 2 * 2 ^ nat (g - 1)"
        by simp
      have "127 + edge \<le> (64 + edge) * 2"
        using assms by simp
      then have "(127 + edge) * 2 ^ nat (g - 1) \<le> ((64 + edge) * 2) * 2 ^ nat (g - 1)"
        by (rule mult_right_mono) simp
      then have "(127 + edge) * 2 ^ nat (g - 1) \<le> (64 + edge) * 2 ^ nat g"
        by (simp add: p)
      then show ?thesis
        using log by (simp add: plat_idx_to_val_log n g_def [symmetric] k_def [symmetric] k63)
    qed
  qed
qed

lemma plat_idx_to_val_mono:
  assumes "0 \<le> edge" and "edge \<le> 1" and "a \<le> b"
  shows "plat_idx_to_val a edge \<le> plat_idx_to_val b edge"
  using assms(3)
proof (induction b rule: int_ge_induct)
  case base
  show ?case by simp
next
  case (step i)
  then show ?case
    using plat_idx_to_val_step [OF assms(1,2), of i] by linarith
qed

lemma plat_idx_to_val_edge_mono:
  assumes "e1 \<le> e2"
  shows "plat_idx_to_val idx e1 \<le> plat_idx_to_val idx e2"
proof (cases "idx < 128")
  case True
  then show ?thesis by (simp add: plat_idx_to_val_linear)
next
  case False
  then show ?thesis
    using assms by (simp add: plat_idx_to_val_log)
qed


lemma plat_idx_to_val_coarse_lower:
  "plat_idx_to_val_coarse idx c 0 = plat_idx_to_val (idx * 2 ^ c) 0"
  by (simp add: plat_idx_to_val_coarse_def push_bit_eq_mult Let_def)

lemma plat_idx_to_val_coarse_upper:
  "plat_idx_to_val_coarse idx c 1 = plat_idx_to_val ((idx + 1) * 2 ^ c) 1"
  by (simp add: plat_idx_to_val_coarse_def push_bit_eq_mult Let_def algebra_simps)

lemma plat_idx_to_val_coarse_convex:
  "plat_idx_to_val_coarse idx c edge =
     (1 - edge) * plat_idx_to_val_coarse idx c 0 + edge * plat_idx_to_val_coarse idx c 1"
  by (simp add: plat_idx_to_val_coarse_def Let_def algebra_simps)

lemma plat_idx_to_val_coarse_lower_le_upper:
  "plat_idx_to_val_coarse idx c 0 \<le> plat_idx_to_val_coarse idx c 1"
proof -
  have "idx * 2 ^ c \<le> (idx + 1) * 2 ^ c"
    by (simp add: algebra_simps)
  then have "plat_idx_to_val (idx * 2 ^ c) 0 \<le> plat_idx_to_val ((idx + 1) * 2 ^ c) 0"
    by (intro plat_idx_to_val_mono) simp_all
  also have "\<dots> \<le> plat_idx_to_val ((idx + 1) * 2 ^ c) 1"
    by (intro plat_idx_to_val_edge_mono) simp
  finally show ?thesis
    by (simp add: plat_idx_to_val_coarse_lower plat_idx_to_val_coarse_upper)
qed

lemma plat_idx_to_val_coarse_between:
  assumes "0 \<le> edge" and "edge \<le> 1"
  shows "plat_idx_to_val_coarse idx c 0 \<le> plat_idx_to_val_coarse idx c edge"
    and "plat_idx_to_val_coarse idx c edge \<le> plat_idx_to_val_coarse idx c 1"
proof -
  let ?l = "plat_idx_to_val_coarse idx c 0" and ?u = "plat_idx_to_val_coarse idx c 1"
  have lu: "0 \<le> ?u - ?l"
    using plat_idx_to_val_coarse_lower_le_upper [of idx c] by simp
  have e: "plat_idx_to_val_coarse idx c edge = ?l + edge * (?u - ?l)"
    by (subst plat_idx_to_val_coarse_convex) (simp add: algebra_simps)
  have "0 \<le> edge * (?u - ?l)"
    using assms(1) lu by (rule mult_nonneg_nonneg)
  then show "?l \<le> plat_idx_to_val_coarse idx c edge"
    by (simp add: e)
  have "edge * (?u - ?l) \<le> 1 * (?u - ?l)"
    using assms(2) lu by (rule mult_right_mono)
  then show "plat_idx_to_val_coarse idx c edge \<le> ?u"
    by (simp add: e)
qed

lemma plat_idx_to_val_coarse_mono:
  assumes "0 \<le> edge" and "edge \<le> 1" and "i \<le> j"
  shows "plat_idx_to_val_coarse i c edge \<le> plat_idx_to_val_coarse j c edge"
proof -
  have l: "plat_idx_to_val_coarse i c 0 \<le> plat_idx_to_val_coarse j c 0"
    unfolding plat_idx_to_val_coarse_lower
    using assms(3) by (intro plat_idx_to_val_mono) (simp_all add: mult_right_mono)
  have u: "plat_idx_to_val_coarse i c 1 \<le> plat_idx_to_val_coarse j c 1"
    unfolding plat_idx_to_val_coarse_upper
    using assms(3) by (intro plat_idx_to_val_mono) (simp_all add: mult_right_mono)
  have "(1 - edge) * plat_idx_to_val_coarse i c 0 \<le> (1 - edge) * plat_idx_to_val_coarse j c 0"
    using l assms(2) by (intro mult_left_mono) simp_all
  moreover have "edge * plat_idx_to_val_coarse i c 1 \<le> edge * plat_idx_to_val_coarse j c 1"
    using u assms(1) by (intro mult_left_mono) simp_all
  ultimately show ?thesis
    by (subst (1 2) plat_idx_to_val_coarse_convex) (rule add_mono)
qed

lemma sorted_map_upt:
  fixes f :: "nat \<Rightarrow> real"
  assumes "\<And>i j. i \<le> j \<Longrightarrow> f i \<le> f j"
  shows "sorted (map f [0..<n])"
  by (simp add: sorted_iff_nth_mono assms)

text \<open>
  C9. For every table size up to \<open>64 * 57\<close> fine bins (every group count up to 57 at any
  coarseness, which covers fio's), the three tables have one entry per histogram column,
  \<open>lower[i] \<le> mid[i] \<le> upper[i]\<close> holds at every index, and each table is non-decreasing.
\<close>

theorem bin_tables_ordered:
  assumes "hist_cols * 2 ^ coarseness \<le> 64 * 57" and "t = make_bin_tables hist_cols coarseness"
  shows "length (bin_vals t) = hist_cols \<and> length (lower_bin_vals t) = hist_cols \<and>
         length (upper_bin_vals t) = hist_cols \<and>
         (\<forall>i < hist_cols. lower_bin_vals t ! i \<le> bin_vals t ! i \<and> bin_vals t ! i \<le> upper_bin_vals t ! i) \<and>
         sorted (lower_bin_vals t) \<and> sorted (bin_vals t) \<and> sorted (upper_bin_vals t)"
proof -
  have h: "(0::real) \<le> 1 / 2" "(1::real) / 2 \<le> 1"
    by simp_all
  have "sorted (lower_bin_vals t)" "sorted (bin_vals t)" "sorted (upper_bin_vals t)"
    unfolding assms(2) make_bin_tables_def
    by (simp_all add: sorted_map_upt plat_idx_to_val_coarse_mono)
  moreover have "lower_bin_vals t ! i \<le> bin_vals t ! i \<and> bin_vals t ! i \<le> upper_bin_vals t ! i"
    if "i < hist_cols" for i
    using that plat_idx_to_val_coarse_between [OF h, of "int i" coarseness]
    by (simp add: assms(2) make_bin_tables_def)
  ultimately show ?thesis
    by (simp add: assms(2) make_bin_tables_def)
qed

lemma make_bin_tables_5_6:
  "make_bin_tables 5 6 =
     \<lparr> bin_vals = [32, 97, 194, 388, 776],
       lower_bin_vals = [0, 64, 128, 256, 512],
       upper_bin_vals = [64, 130, 260, 520, 1040] \<rparr>"
  by code_simp

theorem bin_tables_ordered_witness:
  "sorted (lower_bin_vals (make_bin_tables 5 6)) \<and> sorted (bin_vals (make_bin_tables 5 6)) \<and>
   sorted (upper_bin_vals (make_bin_tables 5 6)) \<and>
   lower_bin_vals (make_bin_tables 5 6) ! 3 \<le> bin_vals (make_bin_tables 5 6) ! 3 \<and>
   bin_vals (make_bin_tables 5 6) ! 3 = 388"
  using bin_tables_ordered [of 5 6 "make_bin_tables 5 6"]
  by (simp add: make_bin_tables_5_6)

text \<open>
  C3, evaluated where it fails: at coarseness 0 the bins 128 and 129 lie in the same group
  (\<open>128 >> 6 = 129 >> 6 = 2\<close>). The upper bound of bin 128 is taken from index
  \<open>128 + stride = 129\<close> at edge 1 and is 132; the lower bound of bin 129 is 130.
\<close>

theorem plat_idx_to_val_coarse_gap:
  "plat_idx_to_val_coarse 128 0 1 = 132 \<and> plat_idx_to_val_coarse 129 0 0 = 130"
  by (simp add: plat_idx_to_val_coarse_def plat_idx_to_val_def
      FIO_IO_U_PLAT_VAL_def FIO_IO_U_PLAT_BITS_def push_bit_eq_mult drop_bit_eq_div Let_def)

lemma plat_idx_to_val_coarse_contiguous_linear:
  assumes "(i + 1) * 2 ^ c < 128"
  shows "plat_idx_to_val_coarse i c 1 = plat_idx_to_val_coarse (i + 1) c 0"
  using assms
  by (simp add: plat_idx_to_val_coarse_lower plat_idx_to_val_coarse_upper plat_idx_to_val_linear)

lemma plat_idx_to_val_coarse_overshoot:
  assumes "128 \<le> (i + 1) * 2 ^ c"
  shows "plat_idx_to_val_coarse i c 1 - plat_idx_to_val_coarse (i + 1) c 0
           = 2 ^ nat (((i + 1) * 2 ^ c) div 64 - 1)"
  using assms
  by (simp add: plat_idx_to_val_coarse_lower plat_idx_to_val_coarse_upper plat_idx_to_val_log
      algebra_simps)

section \<open>Properties of the merge\<close>

lemma read_chunk_wf:
  assumes "wf_reader rdr"
  shows "\<exists>f. read_chunk rdr sz = Inr f \<and> wf_file f \<and> pending f = map strip_row (file_rows rdr)"
proof (cases rdr)
  case None
  then show ?thesis
    by (simp add: read_chunk_def wf_file_def wf_reader_def pending_def file_rows_def)
next
  case (Some chunks)
  show ?thesis
  proof (cases chunks)
    case Nil
    then show ?thesis
      using Some by (simp add: read_chunk_def wf_file_def wf_reader_def pending_def file_rows_def)
  next
    case (Cons c cs)
    then have "\<not> list_ex (\<lambda>r. length r < NON_HIST_COLUMNS) c"
      using assms Some by (auto simp: wf_reader_def list_ex_iff list_all_iff)
    then show ?thesis
      using assms Some Cons
      by (simp add: read_chunk_def wf_file_def wf_reader_def pending_def file_rows_def
          strip_row_def list_all_iff)
  qed
qed

lemma read_chunks_wf:
  assumes "list_all wf_reader rdrs"
  shows "\<exists>fs. read_chunks rdrs sz = Inr fs \<and> list_all wf_file fs \<and>
           map pending fs = map (\<lambda>rdr. map strip_row (file_rows rdr)) rdrs"
  using assms
proof (induction rdrs)
  case Nil
  then show ?case by simp
next
  case (Cons rdr rdrs)
  obtain f where f: "read_chunk rdr sz = Inr f" "wf_file f" "pending f = map strip_row (file_rows rdr)"
    using read_chunk_wf [of rdr sz] Cons.prems by auto
  obtain fs where fs: "read_chunks rdrs sz = Inr fs" "list_all wf_file fs"
      "map pending fs = map (\<lambda>rdr. map strip_row (file_rows rdr)) rdrs"
    using Cons by auto
  show ?case
    by (simp add: f fs)
qed

lemma after_yield_wf:
  assumes "list_all wf_file fs" and "fp < length fs" and "fst (fs ! fp) \<noteq> None"
  shows "\<exists>fs'. after_yield sz fs fp = Inr fs' \<and> list_all wf_file fs' \<and>
           map pending fs' = (map pending fs)[fp := tl (pending (fs ! fp))]"
proof -
  obtain arr rdr where f: "fs ! fp = (Some arr, rdr)"
    using assms(3) by (cases "fs ! fp") auto
  have wf: "wf_file (Some arr, rdr)"
    using assms(1,2) f by (metis list_all_length)
  then obtain x xs where arr: "arr = x # xs"
    by (cases arr) (auto simp: wf_file_def)
  show ?thesis
  proof (cases "xs = []")
    case False
    have "wf_file (Some xs, rdr)"
      using wf False by (simp add: wf_file_def arr)
    then have "list_all wf_file (fs[fp := (Some xs, rdr)])"
      using assms(1) by (auto simp: list_all_iff dest!: set_update_subset_insert [THEN subsetD])
    moreover have "pending (Some xs, rdr) = tl (pending (fs ! fp))"
      by (simp add: f arr pending_def)
    ultimately show ?thesis
      using False assms(2) by (simp add: after_yield_def f arr map_update)
  next
    case True
    have "wf_reader rdr"
      using wf by (simp add: wf_file_def)
    then obtain f' where f': "read_chunk rdr sz = Inr f'" "wf_file f'"
        "pending f' = map strip_row (file_rows rdr)"
      using read_chunk_wf by blast
    have "list_all wf_file (fs[fp := f'])"
      using assms(1) f'(2) by (auto simp: list_all_iff dest!: set_update_subset_insert [THEN subsetD])
    moreover have "tl (pending (fs ! fp)) = map strip_row (file_rows rdr)"
      by (simp add: f arr True pending_def)
    then have "pending f' = tl (pending (fs ! fp))"
      by (simp only: f'(3))
    ultimately show ?thesis
      using True assms(2) by (simp add: after_yield_def f arr f'(1) map_update)
  qed
qed

lemma min_by_first_least:
  fixes m :: nat
  assumes "sorted_wrt (<) (m # xs)"
  shows "min_by key m xs \<in> set (m # xs) \<and>
         (\<forall>x \<in> set (m # xs). key (min_by key m xs) \<le> key x \<and>
            (x < min_by key m xs \<longrightarrow> key (min_by key m xs) < key x))"
  using assms
proof (induction xs arbitrary: m)
  case Nil
  then show ?case by simp
next
  case (Cons x xs)
  show ?case
  proof (cases "key x < key m")
    case True
    have "sorted_wrt (<) (x # xs)"
      using Cons.prems by simp
    from Cons.IH [OF this] True show ?thesis
      by auto
  next
    case False
    have s: "sorted_wrt (<) (m # xs)" and mx: "m < x"
      using Cons.prems by auto
    let ?r = "min_by key m xs"
    from Cons.IH [OF s] have r: "?r \<in> set (m # xs)"
      and le: "\<forall>y \<in> set (m # xs). key ?r \<le> key y \<and> (y < ?r \<longrightarrow> key ?r < key y)"
      by blast+
    have "key ?r \<le> key x"
      using le False by fastforce
    moreover have "key ?r < key x" if "x < ?r"
    proof -
      have "m < ?r"
        using mx that by simp
      then have "key ?r < key m"
        using le by simp
      then show ?thesis
        using False by simp
    qed
    ultimately show ?thesis
      using False r le by auto
  qed
qed

lemma first_time_pending:
  assumes "wf_file f" and "fst f = Some arr"
  shows "first_time arr = Some (head_time (pending f))"
proof -
  obtain x xs where "arr = x # xs" "x \<noteq> []"
    using assms by (cases arr) (auto simp: wf_file_def)
  then show ?thesis
    using assms(2) by (cases x) (auto simp: pending_def head_time_def)
qed

lemma pending_empty_iff:
  assumes "wf_file f"
  shows "pending f = [] \<longleftrightarrow> fst f = None"
  using assms by (auto simp: wf_file_def pending_def split: option.splits)

lemma get_min_wf:
  assumes "list_all wf_file fs"
  shows "if \<forall>f \<in> set fs. pending f = [] then get_min [0..<length fs] fs = Inl ValueError
         else \<exists>fp. get_min [0..<length fs] fs = Inr fp \<and> fp < length fs \<and> pending (fs ! fp) \<noteq> [] \<and>
                (\<forall>j < length fs. pending (fs ! j) \<noteq> [] \<longrightarrow>
                    head_time (pending (fs ! fp)) \<le> head_time (pending (fs ! j)) \<and>
                    (j < fp \<longrightarrow> head_time (pending (fs ! fp)) < head_time (pending (fs ! j))))"
proof -
  let ?cands = "filter (\<lambda>fp. fst (fs ! fp) \<noteq> None) [0..<length fs]"
  let ?key = "\<lambda>fp. the (first_time (the (fst (fs ! fp))))"
  have wf: "wf_file (fs ! j)" if "j < length fs" for j
    using assms that by (simp add: list_all_length)
  have cands: "j \<in> set ?cands \<longleftrightarrow> j < length fs \<and> pending (fs ! j) \<noteq> []" for j
    using wf [of j] by (auto simp: pending_empty_iff)
  have key: "?key j = head_time (pending (fs ! j))" "first_time (the (fst (fs ! j))) \<noteq> None"
    if "j \<in> set ?cands" for j
  proof -
    from that obtain arr where "fst (fs ! j) = Some arr" "j < length fs"
      by auto
    then show "?key j = head_time (pending (fs ! j))" "first_time (the (fst (fs ! j))) \<noteq> None"
      using first_time_pending [OF wf] by simp_all
  qed
  show ?thesis
  proof (cases ?cands)
    case Nil
    then have "\<forall>j < length fs. pending (fs ! j) = []"
      using cands by (metis empty_iff list.set(1))
    then have "\<forall>f \<in> set fs. pending f = []"
      by (metis in_set_conv_nth)
    then show ?thesis
      using Nil by (simp add: get_min_def)
  next
    case (Cons c cs)
    have srt: "sorted_wrt (<) (c # cs)"
      unfolding Cons [symmetric] by (rule sorted_wrt_filter) simp
    let ?r = "min_by ?key c cs"
    from min_by_first_least [OF srt, of ?key]
    have r: "?r \<in> set ?cands"
      and least: "\<forall>x \<in> set ?cands. ?key ?r \<le> ?key x \<and> (x < ?r \<longrightarrow> ?key ?r < ?key x)"
      unfolding Cons by blast+
    have "\<not> list_ex (\<lambda>fp. first_time (the (fst (fs ! fp))) = None) (c # cs)"
      unfolding Cons [symmetric] list_ex_iff using key(2) by blast
    then have g: "get_min [0..<length fs] fs = Inr ?r"
      using Cons by (simp add: get_min_def)
    have ne: "\<not> (\<forall>f \<in> set fs. pending f = [])"
      using r cands by (metis nth_mem)
    have "head_time (pending (fs ! ?r)) \<le> head_time (pending (fs ! j)) \<and>
          (j < ?r \<longrightarrow> head_time (pending (fs ! ?r)) < head_time (pending (fs ! j)))"
      if "j < length fs" "pending (fs ! j) \<noteq> []" for j
    proof -
      have j: "j \<in> set ?cands"
        using that cands by blast
      show ?thesis
        using least j key(1) [OF j] key(1) [OF r] by auto
    qed
    then show ?thesis
      using ne g r cands by auto
  qed
qed

lemma loop_head_done:
  assumes "list_all wf_file fs" and "\<forall>f \<in> set fs. pending f = []"
  shows "loop_head fs = Inr (None, Finished)"
  using get_min_wf [OF assms(1)] assms(2) by (simp add: loop_head_def)

lemma loop_head_yield:
  assumes "list_all wf_file fs" and "\<not> (\<forall>f \<in> set fs. pending f = [])"
  shows "\<exists>fp. loop_head fs = Inr (Some (np_insert (hd (pending (fs ! fp))) 1 (int fp)), Yielded fs fp) \<and>
           is_first_min (map pending fs) fp \<and> fst (fs ! fp) \<noteq> None"
proof -
  from get_min_wf [OF assms(1)] assms(2)
  have "\<exists>fp. get_min [0..<length fs] fs = Inr fp \<and> fp < length fs \<and> pending (fs ! fp) \<noteq> [] \<and>
          (\<forall>j < length fs. pending (fs ! j) \<noteq> [] \<longrightarrow>
              head_time (pending (fs ! fp)) \<le> head_time (pending (fs ! j)) \<and>
              (j < fp \<longrightarrow> head_time (pending (fs ! fp)) < head_time (pending (fs ! j))))"
    by (simp only: if_False)
  then obtain fp where fp: "get_min [0..<length fs] fs = Inr fp" "fp < length fs"
      "pending (fs ! fp) \<noteq> []"
      "\<forall>j < length fs. pending (fs ! j) \<noteq> [] \<longrightarrow>
          head_time (pending (fs ! fp)) \<le> head_time (pending (fs ! j)) \<and>
          (j < fp \<longrightarrow> head_time (pending (fs ! fp)) < head_time (pending (fs ! j)))"
    by blast
  have wf: "wf_file (fs ! fp)"
    using assms(1) fp(2) by (simp add: list_all_length)
  then obtain arr where arr: "fst (fs ! fp) = Some arr" "arr \<noteq> []"
    using fp(3) by (cases "fst (fs ! fp)") (auto simp: pending_empty_iff wf_file_def)
  then have "hd (the (fst (fs ! fp))) = hd (pending (fs ! fp))"
    by (simp add: pending_def)
  moreover have "is_first_min (map pending fs) fp"
    using fp by (simp add: is_first_min_def)
  ultimately show ?thesis
    using fp(1) arr(1) by (simp add: loop_head_def)
qed

lemma resume_wf:
  assumes "inv_gen g" and "g \<noteq> Finished"
  shows "\<exists>fs. list_all wf_file fs \<and> map pending fs = rem_gen g \<and>
           gen_next sz g = loop_head fs"
proof (cases g)
  case (Fresh rdrs)
  obtain fs where fs: "read_chunks rdrs sz = Inr fs" "list_all wf_file fs"
      "map pending fs = rem_gen g"
    using read_chunks_wf [of rdrs sz] assms Fresh by auto
  then show ?thesis
    by (auto simp: gen_next_def Fresh)
next
  case (Yielded fs fp)
  obtain fs' where fs': "after_yield sz fs fp = Inr fs'" "list_all wf_file fs'"
      "map pending fs' = rem_gen g"
    using after_yield_wf [of fs fp sz] assms Yielded by auto
  then show ?thesis
    by (auto simp: gen_next_def Yielded)
next
  case Finished
  then show ?thesis
    using assms by simp
qed

lemma gen_next_done:
  assumes "inv_gen g" and "\<forall>l \<in> set (rem_gen g). l = []"
  shows "gen_next sz g = Inr (None, Finished)"
proof (cases "g = Finished")
  case True
  then show ?thesis
    by (simp add: gen_next_def)
next
  case False
  then obtain fs where fs: "list_all wf_file fs" "map pending fs = rem_gen g"
      "gen_next sz g = loop_head fs"
    using resume_wf [OF assms(1)] by blast
  have "\<forall>f \<in> set fs. pending f = []"
    using assms(2) fs(2) by (metis image_eqI set_map)
  then show ?thesis
    using loop_head_done [OF fs(1)] fs(3) by simp
qed

lemma gen_next_yield:
  assumes "inv_gen g" and "\<not> (\<forall>l \<in> set (rem_gen g). l = [])"
  shows "\<exists>fp g'. gen_next sz g = Inr (Some (np_insert (hd (rem_gen g ! fp)) 1 (int fp)), g') \<and>
           is_first_min (rem_gen g) fp \<and> inv_gen g' \<and>
           rem_gen g' = (rem_gen g)[fp := tl (rem_gen g ! fp)]"
proof -
  have "g \<noteq> Finished"
    using assms(2) by auto
  then obtain fs where fs: "list_all wf_file fs" "map pending fs = rem_gen g"
      "gen_next sz g = loop_head fs"
    using resume_wf [OF assms(1)] by blast
  have "\<not> (\<forall>f \<in> set fs. pending f = [])"
    using assms(2) fs(2) by (metis (no_types, lifting) imageE set_map)
  then obtain fp where fp:
      "loop_head fs = Inr (Some (np_insert (hd (pending (fs ! fp))) 1 (int fp)), Yielded fs fp)"
      "is_first_min (map pending fs) fp" "fst (fs ! fp) \<noteq> None"
    using loop_head_yield [OF fs(1)] by blast
  have len: "fp < length fs"
    using fp(2) by (simp add: is_first_min_def)
  then have "pending (fs ! fp) = rem_gen g ! fp"
    using fs(2) by (metis nth_map)
  moreover have "inv_gen (Yielded fs fp)"
    using fs(1) len fp(3) by simp
  moreover have "rem_gen (Yielded fs fp) = (rem_gen g)[fp := tl (rem_gen g ! fp)]"
    using calculation(1) fs(2) by simp
  ultimately show ?thesis
    using fp(1,2) fs(2,3) by (metis (no_types, lifting))
qed

lemma tagged_mset_empty:
  assumes "\<forall>l \<in> set R. l = []"
  shows "tagged_mset R = {#}"
proof -
  have "R ! i = []" if "i < length R" for i
    using assms that by simp
  then show ?thesis
    by (simp add: tagged_mset_def)
qed

lemma tagged_mset_pop:
  assumes "fp < length R" and "R ! fp \<noteq> []"
  shows "tagged_mset R =
           add_mset (np_insert (hd (R ! fp)) 1 (int fp)) (tagged_mset (R[fp := tl (R ! fp)]))"
proof -
  let ?F = "\<lambda>R i. mset (map (\<lambda>r. np_insert r 1 (int i)) (R ! i))"
  let ?R' = "R[fp := tl (R ! fp)]"
  have fp: "fp \<in> {..<length R}" and fin: "finite {..<length R}"
    using assms(1) by simp_all
  have "R ! fp = hd (R ! fp) # tl (R ! fp)"
    using assms(2) by simp
  then have "?F R fp = add_mset (np_insert (hd (R ! fp)) 1 (int fp)) (mset (map (\<lambda>r. np_insert r 1 (int fp)) (tl (R ! fp))))"
    by (metis list.simps(9) mset.simps(2))
  then have h: "?F R fp = add_mset (np_insert (hd (R ! fp)) 1 (int fp)) (?F ?R' fp)"
    using assms(1) by simp
  have rest: "(\<Sum>i \<in> {..<length R} - {fp}. ?F R i) = (\<Sum>i \<in> {..<length R} - {fp}. ?F ?R' i)"
    by (rule sum.cong) auto
  have "tagged_mset R = ?F R fp + (\<Sum>i \<in> {..<length R} - {fp}. ?F R i)"
    unfolding tagged_mset_def by (rule sum.remove [OF fin fp])
  also have "\<dots> = add_mset (np_insert (hd (R ! fp)) 1 (int fp)) (?F ?R' fp + (\<Sum>i \<in> {..<length R} - {fp}. ?F ?R' i))"
    unfolding h rest by simp
  also have "?F ?R' fp + (\<Sum>i \<in> {..<length R} - {fp}. ?F ?R' i) = tagged_mset ?R'"
    unfolding tagged_mset_def using sum.remove [OF fin fp, of "?F ?R'"] by simp
  finally show ?thesis .
qed

lemma in_tagged_mset:
  "z \<in># tagged_mset R \<longleftrightarrow> (\<exists>j < length R. \<exists>r \<in> set (R ! j). z = np_insert r 1 (int j))"
  by (auto simp: tagged_mset_def set_mset_sum)

lemma np_insert_nth:
  assumes "r \<noteq> []"
  shows "np_insert r 1 v ! 0 = hd r" and "np_insert r 1 v ! 1 = v"
  using assms by (cases r; simp add: np_insert_def)+

lemma sorted_rows_pop:
  assumes "sorted_rows R"
  shows "sorted_rows (R[fp := tl (R ! fp)])"
proof (cases "fp < length R")
  case True
  have tl: "sorted (map hd (tl l)) \<and> (\<forall>r \<in> set (tl l). r \<noteq> [])"
    if "sorted (map hd l) \<and> (\<forall>r \<in> set l. r \<noteq> [])" for l :: "row list"
    using that by (cases l) auto
  have "R ! fp \<in> set R"
    using True by simp
  then have "sorted (map hd (tl (R ! fp))) \<and> (\<forall>r \<in> set (tl (R ! fp)). r \<noteq> [])"
    using assms tl unfolding sorted_rows_def by blast
  moreover have "set (R[fp := tl (R ! fp)]) \<subseteq> insert (tl (R ! fp)) (set R)"
    by (rule set_update_subset_insert)
  ultimately show ?thesis
    using assms unfolding sorted_rows_def by blast
next
  case False
  then have "R[fp := tl (R ! fp)] = R"
    by (simp add: list_update_beyond)
  then show ?thesis
    using assms by simp
qed

lemma first_min_le_all:
  assumes "sorted_rows R" and "is_first_min R fp" and "z \<in># tagged_mset (R[fp := tl (R ! fp)])"
  shows "rec_le (np_insert (hd (R ! fp)) 1 (int fp)) z"
proof -
  obtain j r where j: "j < length R" "r \<in> set (R[fp := tl (R ! fp)] ! j)" "z = np_insert r 1 (int j)"
    using assms(3) by (auto simp: in_tagged_mset)
  have fp: "fp < length R" "R ! fp \<noteq> []"
    using assms(2) by (simp_all add: is_first_min_def)
  have r: "r \<in> set (R ! j)"
    using j(1,2) fp by (cases "j = fp") (auto dest: list.set_sel(2))
  then have ne: "R ! j \<noteq> []"
    by auto
  have srt: "sorted (map hd (R ! j))" "r \<noteq> []"
    using assms(1) j(1) r by (auto simp: sorted_rows_def)
  obtain x xs where xs: "R ! j = x # xs"
    using ne by (cases "R ! j") auto
  have "hd (hd (R ! j)) \<le> hd r"
    using srt(1) r unfolding xs by auto
  then have t: "head_time (R ! j) \<le> hd r"
    by (simp add: head_time_def)
  have m: "head_time (R ! fp) \<le> head_time (R ! j)"
      "j < fp \<Longrightarrow> head_time (R ! fp) < head_time (R ! j)"
    using assms(2) j(1) ne by (simp_all add: is_first_min_def)
  have h: "hd (R ! fp) \<noteq> []"
    using assms(1) fp by (metis sorted_rows_def hd_in_set nth_mem)
  have "head_time (R ! fp) < hd r \<or> (head_time (R ! fp) = hd r \<and> fp \<le> j)"
    using t m by linarith
  moreover have "np_insert (hd (R ! fp)) 1 (int fp) ! 0 = head_time (R ! fp)"
      "np_insert (hd (R ! fp)) 1 (int fp) ! 1 = int fp"
      "np_insert r 1 (int j) ! 0 = hd r" "np_insert r 1 (int j) ! 1 = int j"
    unfolding head_time_def by (rule np_insert_nth [OF h] np_insert_nth [OF srt(2)])+
  ultimately show ?thesis
    unfolding rec_le_def j(3) by auto
qed

lemma gen_all_merge:
  assumes "inv_gen g" and "sorted_rows (rem_gen g)"
  shows "\<exists>out. gen_all sz g = (out, None) \<and> mset out = tagged_mset (rem_gen g) \<and>
           sorted_wrt rec_le out \<and>
           (\<forall>i < length (rem_gen g).
               filter (\<lambda>z. z ! 1 = int i) out = map (\<lambda>r. np_insert r 1 (int i)) (rem_gen g ! i))"
  using assms
proof (induction sz g rule: gen_all.induct)
  case (1 sz g)
  let ?R = "rem_gen g"
  show ?case
  proof (cases "\<forall>l \<in> set ?R. l = []")
    case True
    have "gen_next sz g = Inr (None, Finished)"
      using gen_next_done [OF "1.prems"(1) True] .
    then have "gen_all sz g = ([], None)"
      by (subst gen_all.simps) simp
    moreover have "?R ! i = []" if "i < length ?R" for i
      using True that by simp
    ultimately show ?thesis
      by (simp add: tagged_mset_empty [OF True])
  next
    case False
    obtain fp g' where step:
        "gen_next sz g = Inr (Some (np_insert (hd (?R ! fp)) 1 (int fp)), g')"
        "is_first_min ?R fp" "inv_gen g'" "rem_gen g' = ?R[fp := tl (?R ! fp)]"
      using gen_next_yield [OF "1.prems"(1) False] by blast
    let ?y = "np_insert (hd (?R ! fp)) 1 (int fp)"
    let ?R' = "?R[fp := tl (?R ! fp)]"
    have fp: "fp < length ?R" "?R ! fp \<noteq> []"
      using step(2) by (simp_all add: is_first_min_def)
    have srt': "sorted_rows (rem_gen g')"
      unfolding step(4) by (rule sorted_rows_pop [OF "1.prems"(2)])
    obtain ys where ys: "gen_all sz g' = (ys, None)" "mset ys = tagged_mset ?R'"
        "sorted_wrt rec_le ys"
        "\<forall>i < length ?R'. filter (\<lambda>z. z ! 1 = int i) ys = map (\<lambda>r. np_insert r 1 (int i)) (?R' ! i)"
      using "1.IH" [OF step(1) refl refl step(3) srt'] unfolding step(4) by blast
    have out: "gen_all sz g = (?y # ys, None)"
      by (subst gen_all.simps) (simp add: step(1) ys(1))
    have m: "mset (?y # ys) = tagged_mset ?R"
      by (simp add: ys(2) tagged_mset_pop [OF fp])
    have "rec_le ?y z" if "z \<in> set ys" for z
    proof -
      have "z \<in># tagged_mset ?R'"
        using that ys(2) by (metis set_mset_mset)
      then show ?thesis
        by (rule first_min_le_all [OF "1.prems"(2) step(2)])
    qed
    then have s: "sorted_wrt rec_le (?y # ys)"
      using ys(3) by simp
    have h: "hd (?R ! fp) \<noteq> []"
      using "1.prems"(2) fp by (metis sorted_rows_def hd_in_set nth_mem)
    have y1: "?y ! 1 = int fp"
      by (rule np_insert_nth [OF h])
    have f: "filter (\<lambda>z. z ! 1 = int i) (?y # ys) = map (\<lambda>r. np_insert r 1 (int i)) (?R ! i)"
      if "i < length ?R" for i
    proof (cases "i = fp")
      case True
      have "?R ! fp = hd (?R ! fp) # tl (?R ! fp)"
        using fp(2) by simp
      then have "map (\<lambda>r. np_insert r 1 (int fp)) (?R ! fp)
                  = ?y # map (\<lambda>r. np_insert r 1 (int fp)) (tl (?R ! fp))"
        by (metis list.simps(9))
      moreover have "filter (\<lambda>z. z ! 1 = int fp) ys = map (\<lambda>r. np_insert r 1 (int fp)) (tl (?R ! fp))"
        using ys(4) fp(1) by simp
      ultimately show ?thesis
        using y1 True by simp
    next
      case False
      have "filter (\<lambda>z. z ! 1 = int i) ys = map (\<lambda>r. np_insert r 1 (int i)) (?R ! i)"
        using ys(4) that False by simp
      then show ?thesis
        using y1 False by simp
    qed
    show ?thesis
      using out m s f by blast
  qed
qed

lemma np_insert_strip_row:
  "np_insert (strip_row r) (Suc 0) v = hd r # v # drop 3 r"
  by (simp add: np_insert_def strip_row_def NON_HIST_COLUMNS_def)

text \<open>
  C1. For readers that are well formed and whose files are each in non-decreasing end-time
  order, the generator runs to its end without an exception; the rows it yields are, as a
  multiset, the rows of all files, each reduced to its end time and histogram columns and
  tagged at position 1 with the index of its file; the end times of the output are
  non-decreasing; of two output rows with equal end times the earlier one comes from the
  file with the lower (or the same) index; and the rows of each file appear in their order
  in the file.
\<close>

theorem histogram_generator_merge:
  assumes "list_all wf_reader rdrs"
    and "\<forall>rdr \<in> set rdrs. sorted (map hd (file_rows rdr))"
  shows "\<exists>out. histogram_generator rdrs sz = (out, None) \<and>
           mset out = (\<Sum>i<length rdrs. mset (map (\<lambda>r. hd r # int i # drop 3 r) (file_rows (rdrs ! i)))) \<and>
           sorted (map (\<lambda>z. z ! 0) out) \<and>
           sorted_wrt (\<lambda>a b. a ! 0 = b ! 0 \<longrightarrow> a ! 1 \<le> b ! 1) out \<and>
           (\<forall>i < length rdrs. filter (\<lambda>z. z ! 1 = int i) out
               = map (\<lambda>r. hd r # int i # drop 3 r) (file_rows (rdrs ! i)))"
proof -
  let ?g = "Fresh rdrs"
  have inv: "inv_gen ?g"
    using assms(1) by simp
  have "hd \<circ> strip_row = hd"
    by (auto simp: strip_row_def)
  then have srt: "sorted_rows (rem_gen ?g)"
    using assms(2) by (auto simp: sorted_rows_def strip_row_def)
  obtain out where out: "gen_all sz ?g = (out, None)" "mset out = tagged_mset (rem_gen ?g)"
      "sorted_wrt rec_le out"
      "\<forall>i < length (rem_gen ?g).
          filter (\<lambda>z. z ! 1 = int i) out = map (\<lambda>r. np_insert r 1 (int i)) (rem_gen ?g ! i)"
    using gen_all_merge [OF inv srt] by blast
  have m: "mset out = (\<Sum>i<length rdrs. mset (map (\<lambda>r. hd r # int i # drop 3 r) (file_rows (rdrs ! i))))"
    unfolding out(2) tagged_mset_def
    by (simp add: np_insert_strip_row o_def)
  have "sorted_wrt (\<lambda>a b. a ! 0 \<le> b ! 0) out"
    using out(3) by (rule sorted_wrt_mono_rel [rotated]) (auto simp: rec_le_def)
  then have s0: "sorted (map (\<lambda>z. z ! 0) out)"
    by (simp add: sorted_map)
  have s1: "sorted_wrt (\<lambda>a b. a ! 0 = b ! 0 \<longrightarrow> a ! 1 \<le> b ! 1) out"
    using out(3) by (rule sorted_wrt_mono_rel [rotated]) (auto simp: rec_le_def)
  have f: "\<forall>i < length rdrs. filter (\<lambda>z. z ! 1 = int i) out
               = map (\<lambda>r. hd r # int i # drop 3 r) (file_rows (rdrs ! i))"
    using out(4) by (simp add: np_insert_strip_row o_def)
  show ?thesis
    using out(1) m s0 s1 f unfolding histogram_generator_def by blast
qed

theorem histogram_generator_merge_witness:
  "\<exists>out. histogram_generator [Some [[[5, 0, 0, 1], [7, 0, 0, 2]]], None, Some [[[5, 0, 0, 3]], [[6, 0, 0, 4]]]] 2
            = (out, None) \<and>
         sorted (map (\<lambda>z. z ! 0) out) \<and>
         filter (\<lambda>z. z ! 1 = 2) out = [[5, 2, 3], [6, 2, 4]]"
  using histogram_generator_merge
    [of "[Some [[[5, 0, 0, 1], [7, 0, 0, 2]]], None, Some [[[5, 0, 0, 3]], [[6, 0, 0, 4]]]]" 2]
  by (auto simp: wf_reader_def file_rows_def NON_HIST_COLUMNS_def)


section \<open>The buffers of the merge\<close>

lemma read_chunk_within:
  assumes "chunks_within sz rdr" and "read_chunk rdr sz' = Inr f"
  shows "file_within sz f"
  using assms
  by (auto simp: read_chunk_def chunks_within_def file_within_def split: option.splits list.splits if_splits)

lemma read_chunks_within:
  assumes "list_all (chunks_within sz) rdrs" and "read_chunks rdrs sz' = Inr fs"
  shows "length fs = length rdrs \<and> list_all (file_within sz) fs"
  using assms
proof (induction rdrs arbitrary: fs)
  case Nil
  then show ?case by simp
next
  case (Cons rdr rdrs)
  then show ?case
    by (auto split: sum.splits dest: read_chunk_within)
qed

lemma list_all_update:
  assumes "list_all P xs" and "P y"
  shows "list_all P (xs[i := y])"
  using assms by (auto simp: list_all_iff dest!: set_update_subset_insert [THEN subsetD])

lemma after_yield_within:
  assumes "list_all (file_within sz) fs" and "after_yield sz' fs fp = Inr fs'"
  shows "length fs' = length fs \<and> list_all (file_within sz) fs'"
proof -
  from assms(2) have fp: "fp < length fs"
    by (auto simp: after_yield_def split: if_splits)
  obtain arr rdr where f: "fs ! fp = (Some arr, rdr)"
    using assms(2) fp by (cases "fs ! fp") (auto simp: after_yield_def split: option.splits)
  have w: "file_within sz (Some arr, rdr)"
    using assms(1) fp f by (metis list_all_length)
  show ?thesis
  proof (cases "tl arr \<noteq> []")
    case True
    then have "fs' = fs[fp := (Some (tl arr), rdr)]"
      using assms(2) fp f by (simp add: after_yield_def)
    moreover have "file_within sz (Some (tl arr), rdr)"
      using w by (auto simp: file_within_def)
    ultimately show ?thesis
      using assms(1) by (simp add: list_all_update)
  next
    case False
    then obtain f' where f': "read_chunk rdr sz' = Inr f'" "fs' = fs[fp := f']"
      using assms(2) fp f by (auto simp: after_yield_def split: sum.splits)
    have "chunks_within sz rdr"
      using w by (simp add: file_within_def)
    then have "file_within sz f'"
      using f'(1) by (rule read_chunk_within)
    then show ?thesis
      using assms(1) f'(2) by (simp add: list_all_update)
  qed
qed

lemma loop_head_within:
  assumes "length fs = n" and "list_all (file_within sz) fs" and "loop_head fs = Inr (y, g)"
  shows "gen_within sz n g"
  using assms by (auto simp: loop_head_def split: sum.splits if_splits)

lemma gen_next_within:
  assumes "gen_within sz n g" and "gen_next sz' g = Inr (y, g')"
  shows "gen_within sz n g'"
proof (cases g)
  case (Fresh rdrs)
  then obtain fs where fs: "read_chunks rdrs sz' = Inr fs" "loop_head fs = Inr (y, g')"
    using assms(2) by (auto simp: gen_next_def split: sum.splits)
  then show ?thesis
    using read_chunks_within [OF _ fs(1), of sz] loop_head_within [OF _ _ fs(2), of n sz] assms(1) Fresh
    by simp
next
  case (Yielded fs fp)
  then obtain fs' where fs': "after_yield sz' fs fp = Inr fs'" "loop_head fs' = Inr (y, g')"
    using assms(2) by (auto simp: gen_next_def split: sum.splits)
  then show ?thesis
    using after_yield_within [OF _ fs'(1), of sz] loop_head_within [OF _ _ fs'(2), of n sz] assms(1) Yielded
    by simp
next
  case Finished
  then show ?thesis
    using assms by (auto simp: gen_next_def)
qed

lemma gen_run_within:
  assumes "gen_within sz n g" and "gen_run sz' g k = Inr g'"
  shows "gen_within sz n g'"
  using assms
proof (induction k arbitrary: g)
  case 0
  then show ?case by simp
next
  case (Suc k)
  then show ?case
    by (auto split: sum.splits dest: gen_next_within)
qed

lemma sum_list_bounded:
  fixes xs :: "nat list"
  assumes "\<forall>x \<in> set xs. x \<le> b"
  shows "sum_list xs \<le> length xs * b"
  using assms by (induction xs) auto

lemma buffered_within:
  assumes "gen_within sz n g"
  shows "(\<forall>b \<in> set (buffered g). b \<le> sz) \<and> length (buffered g) \<le> n"
  using assms
  by (cases g) (auto simp: file_within_def list_all_iff split: option.splits)

text \<open>
  The arrays are as large as the chunks that the readers return: if none of these has more
  than \<open>sz\<close> rows, no array has, after any number of calls of \<^verbatim>\<open>next\<close>. Nothing in
  \<open>read_chunk\<close> or in the loop limits an array otherwise.
\<close>

lemma gen_run_within_chunks:
  assumes "\<forall>rdr \<in> set rdrs. chunks_within sz rdr"
    and "gen_run sz (Fresh rdrs) k = Inr g"
  shows "(\<forall>b \<in> set (buffered g). b \<le> sz) \<and> sum_list (buffered g) \<le> length rdrs * sz"
proof -
  have "gen_within sz (length rdrs) (Fresh rdrs)"
    using assms(1) by (simp add: list_all_iff)
  then have "gen_within sz (length rdrs) g"
    using assms(2) by (rule gen_run_within)
  then have b: "\<forall>b \<in> set (buffered g). b \<le> sz" "length (buffered g) \<le> length rdrs"
    using buffered_within by blast+
  have "sum_list (buffered g) \<le> length (buffered g) * sz"
    using b(1) by (rule sum_list_bounded)
  also have "\<dots> \<le> length rdrs * sz"
    using b(2) by simp
  finally show ?thesis
    using b(1) by simp
qed

text \<open>
  C8, evaluated where it fails: with a chunk size of 2, a file of three rows and a file of
  one row, the first \<^verbatim>\<open>next\<close> leaves the generator with all three rows of the first file in
  its array. \<open>read_chunk\<close> does not pass \<open>sz\<close> on, and the reader's \<^verbatim>\<open>read()\<close> returns the whole
  file.
\<close>

theorem histogram_generator_buffer_exceeds_sz:
  "gen_run 2 (Fresh [pandas_read_csv [[1, 0, 0, 7], [2, 0, 0, 8], [3, 0, 0, 9]] 2,
                     pandas_read_csv [[1, 0, 0, 5]] 2]) 1
     = Inr (Yielded [(Some [[1, 7], [2, 8], [3, 9]], Some []), (Some [[1, 5]], Some [])] 0) \<and>
   buffered (Yielded [(Some [[1, 7], [2, 8], [3, 9]], Some []), (Some [[1, 5]], Some [])] 0) = [3, 1] \<and>
   \<not> list_all (\<lambda>b. b \<le> 2)
       (buffered (Yielded [(Some [[1, 7], [2, 8], [3, 9]], Some []), (Some [[1, 5]], Some [])] 0))"
  by code_simp

section \<open>Properties of the aggregation\<close>

lemma length_np_add_at [simp]:
  "length (np_add_at xs idx ws) = length xs"
  by (induction xs idx ws rule: np_add_at.induct) simp_all

lemma filter_upt_from:
  "filter (\<lambda>i. j \<le> i) [0..<n] = [j..<n]"
proof (induction n)
  case 0
  then show ?case by simp
next
  case (Suc n)
  then show ?case
    by (cases "j \<le> n") auto
qed

lemma filter_upt_first:
  assumes "m < n" and "P m" and "\<forall>i < m. \<not> P i"
  shows "hd (filter P [0..<n]) = m" and "filter P [0..<n] \<noteq> []"
proof -
  have "[0..<n] = [0..<m] @ m # [Suc m..<n]"
    using assms(1) by (metis le_add1 less_imp_add_positive plus_nat.add_0 upt_add_eq_append upt_conv_Cons)
  moreover have "filter P [0..<m] = []"
    using assms(3) by (simp add: filter_empty_conv)
  ultimately have "filter P [0..<n] = m # filter P [Suc m..<n]"
    using assms(2) by simp
  then show "hd (filter P [0..<n]) = m" and "filter P [0..<n] \<noteq> []"
    by simp_all
qed

lemma filter_upt_last:
  assumes "m < n" and "P m" and "\<forall>i. m < i \<and> i < n \<longrightarrow> \<not> P i"
  shows "last (filter P [0..<n]) = m"
proof -
  have "[0..<n] = [0..<m] @ m # [Suc m..<n]"
    using assms(1) by (metis le_add1 less_imp_add_positive plus_nat.add_0 upt_add_eq_append upt_conv_Cons)
  moreover have "filter P [Suc m..<n] = []"
    using assms(3) by (simp add: filter_empty_conv)
  ultimately have "filter P [0..<n] = filter P [0..<m] @ [m]"
    using assms(2) by simp
  then show ?thesis
    by simp
qed

lemma np_take_upt:
  assumes "n \<le> length xs"
  shows "np_take xs [j..<n] = Inr (map (\<lambda>i. xs ! i) [j..<n])"
  using assms by (simp add: np_take_def list_all_iff)

lemma weights_scalar_end:
  "\<exists>w. weights s_ts [e] iStart iEnd = Inr w \<and> length w = length s_ts"
proof -
  have "np_broadcast s_ts [e] = Inr (map (\<lambda>s. (s, e)) s_ts)"
    by (cases s_ts rule: list.exhaust; cases "tl s_ts") (auto simp: np_broadcast_def)
  then show ?thesis
    by (simp add: weights_elementwise)
qed

lemma process_sample_suffix:
  assumes len: "length (bin_vals t) = H" "length (lower_bin_vals t) = H"
      "length (upper_bin_vals t) = H" "length hist = H" "length (iHist st) = H"
    and qual: "\<forall>i < H. (start_times_of c t end_time ! i < iEnd) = (j \<le> i)"
  shows "\<exists>w. length w = H - j \<and>
           process_sample c t iStart iEnd st end_time hist =
             (let hs = map (\<lambda>i. hist ! i) [j..<H];
                  st1 = st\<lparr> iHist := np_add_at (iHist st) [j..<H]
                                         (map (\<lambda>(h, x). np_multiply (Fin (of_int h)) x) (zip hs w)),
                            ss_cnt := np_int64 (ss_cnt st + np_int64 (sum_list hs)) \<rparr>;
                  nz = np_where (\<lambda>h. h \<noteq> 0) hs
              in if nz \<noteq> []
                 then Inr (st1\<lparr>
                        mn_bin_val := Some (update_extreme (mn_bin_val st) min
                                              (lower_bin_vals t ! (j + nat (max 0 (int (hd nz) - 1))))),
                        mx_bin_val := Some (update_extreme (mx_bin_val st) max
                                              (upper_bin_vals t ! (j + nat (min (int (H - j) - 1) (int (last nz) + 1))))) \<rparr>)
                 else Inr st1)"
proof -
  let ?st = "start_times_of c t end_time"
  have lst: "length ?st = H"
    by (simp add: start_times_of_def len(1))
  have "np_where (\<lambda>s. s < iEnd) ?st = filter (\<lambda>i. j \<le> i) [0..<H]"
    unfolding np_where_def lst using qual by (intro filter_cong) auto
  then have idx: "np_where (\<lambda>s. s < iEnd) ?st = [j..<H]"
    by (simp add: filter_upt_from)
  obtain w where w: "weights (map (\<lambda>i. ?st ! i) [j..<H]) [of_int end_time] iStart iEnd = Inr w"
      "length w = H - j"
    using weights_scalar_end [of "map (\<lambda>i. ?st ! i) [j..<H]" "of_int end_time" iStart iEnd] by auto
  have all: "list_all (\<lambda>i. i < length (iHist st)) [j..<H]"
    by (simp add: list_all_iff len(5))
  have nz: "nz \<noteq> [] \<Longrightarrow> hd nz < H - j \<and> last nz < H - j"
    if "nz = np_where (\<lambda>h. h \<noteq> 0) (map (\<lambda>i. hist ! i) [j..<H])" for nz
  proof -
    assume ne: "nz \<noteq> []"
    have "set nz \<subseteq> {..<H - j}"
      unfolding that np_where_def by auto
    then show ?thesis
      using ne by (meson hd_in_set last_in_set lessThan_iff subsetD)
  qed
  have lo: "map (\<lambda>i. lower_bin_vals t ! i) [j..<H] ! k = lower_bin_vals t ! (j + k)"
    and up: "map (\<lambda>i. upper_bin_vals t ! i) [j..<H] ! k = upper_bin_vals t ! (j + k)"
    if "k < H - j" for k
    using that by simp_all
  let ?nz = "np_where (\<lambda>h. h \<noteq> 0) (map (\<lambda>i. hist ! i) [j..<H])"
  have klo: "nat (max 0 (int (hd ?nz) - 1)) < H - j"
    and khi: "nat (min (int (H - j) - 1) (int (last ?nz) + 1)) < H - j" if "?nz \<noteq> []"
    using nz [OF refl that] by linarith+
  have "process_sample c t iStart iEnd st end_time hist =
             (let hs = map (\<lambda>i. hist ! i) [j..<H];
                  st1 = st\<lparr> iHist := np_add_at (iHist st) [j..<H]
                                         (map (\<lambda>(h, x). np_multiply (Fin (of_int h)) x) (zip hs w)),
                            ss_cnt := np_int64 (ss_cnt st + np_int64 (sum_list hs)) \<rparr>;
                  nz = np_where (\<lambda>h. h \<noteq> 0) hs
              in if nz \<noteq> []
                 then Inr (st1\<lparr>
                        mn_bin_val := Some (update_extreme (mn_bin_val st) min
                                              (lower_bin_vals t ! (j + nat (max 0 (int (hd nz) - 1))))),
                        mx_bin_val := Some (update_extreme (mx_bin_val st) max
                                              (upper_bin_vals t ! (j + nat (min (int (H - j) - 1) (int (last nz) + 1))))) \<rparr>)
                 else Inr st1)"
  proof (cases "?nz = []")
    case True
    then show ?thesis
      unfolding process_sample_def idx Let_def
      using all by (simp add: np_take_upt len w(1))
  next
    case False
    show ?thesis
      unfolding process_sample_def idx Let_def
      using all False lo [OF klo [OF False]] up [OF khi [OF False]]
      by (simp add: np_take_upt len w(1))
  qed
  then show ?thesis
    using w(2) by blast
qed

text \<open>
  C5 (as amended). Let the bins of a sample that start before the end of the interval be
  those from index \<open>j\<close> on (with tables in ascending order the qualifying bins are such a
  tail), and let \<open>b_lo\<close> and \<open>b_hi\<close> be the lowest and the highest of them with a non-zero
  count. Then the step for this sample returns, the minimum is combined (by \<open>min\<close>, or set
  when it was unset) with the lower bound of bin \<open>b_lo - 1\<close> clamped at bin \<open>j\<close>, the first
  qualifying bin, not at bin 0; and the maximum is combined (by \<open>max\<close>, or set when it was
  unset) with the upper bound of bin \<open>b_hi + 1\<close> clamped at bin \<open>H - 1\<close>.
\<close>

theorem process_sample_extremes:
  assumes len: "length (bin_vals t) = H" "length (lower_bin_vals t) = H"
      "length (upper_bin_vals t) = H" "length hist = H" "length (iHist st) = H"
    and qual: "\<forall>i < H. (start_times_of c t end_time ! i < iEnd) = (j \<le> i)"
    and lo: "j \<le> b_lo" "b_lo < H" "hist ! b_lo \<noteq> 0" "\<forall>i. j \<le> i \<and> i < b_lo \<longrightarrow> hist ! i = 0"
    and hi: "j \<le> b_hi" "b_hi < H" "hist ! b_hi \<noteq> 0" "\<forall>i. b_hi < i \<and> i < H \<longrightarrow> hist ! i = 0"
  shows "\<exists>st'. process_sample c t iStart iEnd st end_time hist = Inr st' \<and>
           mn_bin_val st' =
             Some (case mn_bin_val st of
                     None \<Rightarrow> lower_bin_vals t ! max j (b_lo - 1)
                   | Some m \<Rightarrow> min m (lower_bin_vals t ! max j (b_lo - 1))) \<and>
           mx_bin_val st' =
             Some (case mx_bin_val st of
                     None \<Rightarrow> upper_bin_vals t ! min (H - 1) (b_hi + 1)
                   | Some m \<Rightarrow> max m (upper_bin_vals t ! min (H - 1) (b_hi + 1)))"
proof -
  let ?hs = "map (\<lambda>i. hist ! i) [j..<H]"
  let ?P = "\<lambda>k. hist ! (j + k) \<noteq> 0"
  have "np_where (\<lambda>h. h \<noteq> 0) ?hs = filter (\<lambda>k. ?hs ! k \<noteq> 0) [0..<H - j]"
    by (simp add: np_where_def)
  also have "\<dots> = filter ?P [0..<H - j]"
    by (intro filter_cong) auto
  finally have nz: "np_where (\<lambda>h. h \<noteq> 0) ?hs = filter ?P [0..<H - j]" .
  have plo: "b_lo - j < H - j" "?P (b_lo - j)" "\<forall>i < b_lo - j. \<not> ?P i"
    using lo by auto
  have "\<not> ?P i" if "b_hi - j < i" "i < H - j" for i
  proof -
    have "b_hi < j + i \<and> j + i < H"
      using that by linarith
    then show ?thesis
      using hi(4) by blast
  qed
  then have phi: "b_hi - j < H - j" "?P (b_hi - j)" "\<forall>i. b_hi - j < i \<and> i < H - j \<longrightarrow> \<not> ?P i"
    using hi(1-3) by auto
  have h: "hd (filter ?P [0..<H - j]) = b_lo - j" and ne: "filter ?P [0..<H - j] \<noteq> []"
    using filter_upt_first [of "b_lo - j" "H - j" ?P, OF plo] by blast+
  have l: "last (filter ?P [0..<H - j]) = b_hi - j"
    using filter_upt_last [of "b_hi - j" "H - j" ?P, OF phi] .
  have klo: "j + nat (max 0 (int (b_lo - j) - 1)) = max j (b_lo - 1)"
    using lo(1) by auto
  have khi: "j + nat (min (int (H - j) - 1) (int (b_hi - j) + 1)) = min (H - 1) (b_hi + 1)"
    using hi(1,2) by auto
  obtain w where w: "process_sample c t iStart iEnd st end_time hist =
             (let hs = ?hs;
                  st1 = st\<lparr> iHist := np_add_at (iHist st) [j..<H]
                                         (map (\<lambda>(h, x). np_multiply (Fin (of_int h)) x) (zip hs w)),
                            ss_cnt := np_int64 (ss_cnt st + np_int64 (sum_list hs)) \<rparr>;
                  nz = np_where (\<lambda>h. h \<noteq> 0) hs
              in if nz \<noteq> []
                 then Inr (st1\<lparr>
                        mn_bin_val := Some (update_extreme (mn_bin_val st) min
                                              (lower_bin_vals t ! (j + nat (max 0 (int (hd nz) - 1))))),
                        mx_bin_val := Some (update_extreme (mx_bin_val st) max
                                              (upper_bin_vals t ! (j + nat (min (int (H - j) - 1) (int (last nz) + 1))))) \<rparr>)
                 else Inr st1)"
    using process_sample_suffix [OF len qual] by blast
  show ?thesis
    unfolding w Let_def nz h l klo khi using ne
    by (simp add: update_extreme_def split: option.split)
qed

lemma all_less_5:
  "(\<forall>i < (5::nat). P i) \<longleftrightarrow> P 0 \<and> P 1 \<and> P 2 \<and> P 3 \<and> P 4"
proof -
  have "i < 5 \<longleftrightarrow> i = 0 \<or> i = 1 \<or> i = 2 \<or> i = 3 \<or> i = 4" for i :: nat
    by auto
  then show ?thesis
    by auto
qed

lemma qual_5_6:
  "\<forall>i < 5. (start_times_of \<lparr>interval = 1, max_latency = 20\<rparr> (make_bin_tables 5 6) 11 ! i < 10) = (4 \<le> i)"
  unfolding all_less_5 by (simp add: make_bin_tables_5_6 start_times_of_def)

theorem process_sample_extremes_witness:
  "\<exists>st'. process_sample \<lparr>interval = 1, max_latency = 20\<rparr> (make_bin_tables 5 6) 9 10
            \<lparr>iHist = replicate 5 (Fin 0), ss_cnt = 0, mn_bin_val = None, mx_bin_val = None\<rparr>
            11 [0, 0, 0, 0, 3] = Inr st' \<and>
         mn_bin_val st' = Some 512 \<and> mx_bin_val st' = Some 1040"
  using process_sample_extremes [of "make_bin_tables 5 6" 5 "[0, 0, 0, 0, 3]"
      "\<lparr>iHist = replicate 5 (Fin 0), ss_cnt = 0, mn_bin_val = None, mx_bin_val = None\<rparr>"
      "\<lparr>interval = 1, max_latency = 20\<rparr>" 11 10 4 4 4 9, OF _ _ _ _ _ qual_5_6]
  by (simp add: make_bin_tables_5_6 nth_Cons' less_Suc_eq)

text \<open>
  C5 as stated fails on the minimum: with 5 bins at coarseness 6 (a group count of 5) and
  an interval width of 1, only bin 4 of a sample ending at 11 starts before the end of the
  interval \<open>[9, 10]\<close>. It holds the sample's only count, and the minimum is its own lower
  bound 512, not the lower bound 256 of bin 3, the bin one index before it.
\<close>

theorem process_interval_min_clamp:
  "process_interval \<lparr>interval = 1, max_latency = 20\<rparr> 5 (make_bin_tables 5 6) [[11, 0, 0, 0, 0, 0, 3]] 9 10
     = Inr (Some \<lparr>res_end = 10, res_mn = Some 512, res_ss_cnt = 3,
                   res_vs = [32, 97, 194, 388, 776],
                   res_ws = [Fin 0, Fin 0, Fin 0, Fin 0, Fin (207 / 319)],
                   res_mx = Some 1040\<rparr>) \<and>
   lower_bin_vals (make_bin_tables 5 6) ! nat (max 0 (4 - 1)) = 256"
  by code_simp


section \<open>Properties of the sample count\<close>

lemma np_int64_id:
  assumes "0 \<le> x" and "x < 2 ^ 63"
  shows "np_int64 x = x"
  unfolding np_int64_def using assms by (intro signed_take_bit_int_eq_self) simp_all

lemma process_sample_count:
  assumes len: "length (bin_vals t) = H" "length (lower_bin_vals t) = H"
      "length (upper_bin_vals t) = H" "length hist = H" "length (iHist st) = H"
  shows "\<exists>st'. process_sample c t iStart iEnd st end_time hist = Inr st' \<and>
           length (iHist st') = H \<and>
           ss_cnt st' = np_int64 (ss_cnt st +
             np_int64 (sum_list (map (\<lambda>i. hist ! i) (np_where (\<lambda>s. s < iEnd) (start_times_of c t end_time)))))"
proof -
  let ?st = "start_times_of c t end_time"
  let ?idx = "np_where (\<lambda>s. s < iEnd) ?st"
  have lst: "length ?st = H"
    by (simp add: start_times_of_def len(1))
  have idx: "list_all (\<lambda>i. i < H) ?idx"
    by (auto simp: np_where_def list_all_iff lst)
  obtain w where w: "weights (map (\<lambda>i. ?st ! i) ?idx) [of_int end_time] iStart iEnd = Inr w"
    using weights_scalar_end by blast
  show ?thesis
    unfolding process_sample_def Let_def np_take_def len
    using idx by (simp add: w len(5))
qed

lemma sum_list_filter_le:
  fixes f :: "nat \<Rightarrow> int"
  assumes "\<forall>i \<in> set xs. 0 \<le> f i"
  shows "sum_list (map f (filter P xs)) \<le> sum_list (map f xs)"
  using assms by (induction xs) auto

lemma row_counts:
  assumes "length r = H + 2"
  shows "map (\<lambda>i. r ! (i + 2)) [0..<H] = drop 2 r"
proof -
  have "length (drop 2 r) = H"
    using assms by simp
  then have "map (\<lambda>i. drop 2 r ! i) [0..<H] = drop 2 r"
    by (metis map_nth)
  moreover have "map (\<lambda>i. drop 2 r ! i) [0..<H] = map (\<lambda>i. r ! (i + 2)) [0..<H]"
    using assms by (auto simp: add.commute)
  ultimately show ?thesis
    by simp
qed

lemma row_counted_bounds:
  fixes r :: row
  assumes "length (bin_vals t) = H" and "length r = H + 2" and "\<forall>x \<in> set (drop 2 r). 0 \<le> x"
  shows "0 \<le> sum_list (map (\<lambda>i. r ! (i + 2)) (np_where (\<lambda>s. s < iEnd) (start_times_of c t e)))"
    and "sum_list (map (\<lambda>i. r ! (i + 2)) (np_where (\<lambda>s. s < iEnd) (start_times_of c t e)))
           \<le> sum_list (drop 2 r)"
proof -
  have len: "length (start_times_of c t e) = H"
    by (simp add: start_times_of_def assms(1))
  have nn: "0 \<le> r ! (i + 2)" if "i < H" for i
  proof -
    have "drop 2 r ! i \<in> set (drop 2 r)"
      using assms(2) that by (intro nth_mem) simp
    moreover have "drop 2 r ! i = r ! (i + 2)"
      using assms(2) that by (simp add: add.commute)
    ultimately show ?thesis
      using assms(3) by auto
  qed
  show "0 \<le> sum_list (map (\<lambda>i. r ! (i + 2)) (np_where (\<lambda>s. s < iEnd) (start_times_of c t e)))"
  proof (rule sum_list_nonneg)
    fix x
    assume "x \<in> set (map (\<lambda>i. r ! (i + 2)) (np_where (\<lambda>s. s < iEnd) (start_times_of c t e)))"
    then show "0 \<le> x"
      using nn by (auto simp: np_where_def len)
  qed
  have "\<forall>i \<in> set [0..<H]. 0 \<le> r ! (i + 2)"
    using nn by simp
  then have "sum_list (map (\<lambda>i. r ! (i + 2)) (filter (\<lambda>i. start_times_of c t e ! i < iEnd) [0..<H]))
              \<le> sum_list (map (\<lambda>i. r ! (i + 2)) [0..<H])"
    by (rule sum_list_filter_le)
  then show "sum_list (map (\<lambda>i. r ! (i + 2)) (np_where (\<lambda>s. s < iEnd) (start_times_of c t e)))
           \<le> sum_list (drop 2 r)"
    unfolding np_where_def len row_counts [OF assms(2)] .
qed

lemma counted_le:
  assumes "length (bin_vals t) = H" and "\<forall>r \<in> set samples. length r = H + 2"
    and "\<forall>r \<in> set samples. \<forall>x \<in> set (drop 2 r). 0 \<le> x"
  shows "counted c t iEnd samples \<le> sum_list (map (\<lambda>r. sum_list (drop 2 r)) samples)"
    and "0 \<le> counted c t iEnd samples"
    and "(\<forall>r \<in> set samples. \<forall>s \<in> set (start_times_of c t (r ! 0)). s < iEnd) \<Longrightarrow>
           counted c t iEnd samples = sum_list (map (\<lambda>r. sum_list (drop 2 r)) samples)"
proof -
  have len: "length (start_times_of c t e) = H" for e
    by (simp add: start_times_of_def assms(1))
  show "counted c t iEnd samples \<le> sum_list (map (\<lambda>r. sum_list (drop 2 r)) samples)"
    unfolding counted_def using assms by (intro sum_list_mono row_counted_bounds(2)) auto
  have "0 \<le> sum_list (map (\<lambda>i. r ! (i + 2)) (np_where (\<lambda>s. s < iEnd) (start_times_of c t (r ! 0))))"
    if "r \<in> set samples" for r
    using assms that by (intro row_counted_bounds(1) [OF assms(1)]) auto
  then show "0 \<le> counted c t iEnd samples"
    unfolding counted_def by (intro sum_list_nonneg) auto
  show "counted c t iEnd samples = sum_list (map (\<lambda>r. sum_list (drop 2 r)) samples)"
    if q: "\<forall>r \<in> set samples. \<forall>s \<in> set (start_times_of c t (r ! 0)). s < iEnd"
  proof -
    have "sum_list (map (\<lambda>i. r ! (i + 2)) (np_where (\<lambda>s. s < iEnd) (start_times_of c t (r ! 0))))
            = sum_list (drop 2 r)" if "r \<in> set samples" for r
    proof -
      have "np_where (\<lambda>s. s < iEnd) (start_times_of c t (r ! 0)) = [0..<H]"
        using q that by (auto simp: np_where_def len filter_id_conv)
      moreover have "length r = H + 2"
        using assms(2) that by simp
      ultimately show ?thesis
        by (simp only: row_counts)
    qed
    then have "map (\<lambda>r. sum_list (map (\<lambda>i. r ! (i + 2))
                      (np_where (\<lambda>s. s < iEnd) (start_times_of c t (r ! 0))))) samples
                = map (\<lambda>r. sum_list (drop 2 r)) samples"
      by (intro map_cong refl)
    then show ?thesis
      unfolding counted_def by (rule arg_cong)
  qed
qed

lemma process_samples_count:
  assumes "length (bin_vals t) = H" "length (lower_bin_vals t) = H" "length (upper_bin_vals t) = H"
    and "\<forall>r \<in> set samples. length r = H + 2"
    and "\<forall>r \<in> set samples. \<forall>x \<in> set (drop 2 r). 0 \<le> x"
    and "length (iHist st) = H" and "0 \<le> ss_cnt st"
    and "ss_cnt st + sum_list (map (\<lambda>r. sum_list (drop 2 r)) samples) < 2 ^ 63"
  shows "\<exists>st'. process_samples c t iStart iEnd st samples = Inr st' \<and>
           ss_cnt st' = ss_cnt st + counted c t iEnd samples"
  using assms(4-8)
proof (induction samples arbitrary: st)
  case Nil
  then show ?case by (simp add: counted_def)
next
  case (Cons r rs)
  let ?q = "sum_list (map (\<lambda>i. r ! (i + 2)) (np_where (\<lambda>s. s < iEnd) (start_times_of c t (r ! 0))))"
  have r: "length r = H + 2" "\<forall>x \<in> set (drop 2 r). 0 \<le> x"
    using Cons.prems(1,2) by simp_all
  have rs: "\<forall>r \<in> set rs. length r = H + 2" "\<forall>r \<in> set rs. \<forall>x \<in> set (drop 2 r). 0 \<le> x"
    using Cons.prems(1,2) by simp_all
  have lr: "length (drop 2 r) = H"
    using r(1) by simp
  have q: "0 \<le> ?q" "?q \<le> sum_list (drop 2 r)"
    using row_counted_bounds [OF assms(1) r] by blast+
  have "0 \<le> sum_list (drop 2 r')" if "r' \<in> set rs" for r'
    using rs(2) that by (intro sum_list_nonneg) auto
  then have rest: "0 \<le> sum_list (map (\<lambda>r. sum_list (drop 2 r)) rs)"
    by (intro sum_list_nonneg) auto
  have tot: "ss_cnt st + sum_list (drop 2 r) + sum_list (map (\<lambda>r. sum_list (drop 2 r)) rs) < 2 ^ 63"
    using Cons.prems(5) by simp
  obtain st1 where st1: "process_sample c t iStart iEnd st (r ! 0) (drop 2 r) = Inr st1"
      "length (iHist st1) = H"
      "ss_cnt st1 = np_int64 (ss_cnt st +
         np_int64 (sum_list (map (\<lambda>i. drop 2 r ! i) (np_where (\<lambda>s. s < iEnd) (start_times_of c t (r ! 0))))))"
    using process_sample_count [OF assms(1-3) lr Cons.prems(3)] by blast
  have "i \<in> set (np_where (\<lambda>s. s < iEnd) (start_times_of c t (r ! 0))) \<Longrightarrow> drop 2 r ! i = r ! (i + 2)" for i
    using r(1) assms(1) by (auto simp: np_where_def start_times_of_def add.commute)
  then have eq: "map (\<lambda>i. drop 2 r ! i) (np_where (\<lambda>s. s < iEnd) (start_times_of c t (r ! 0)))
        = map (\<lambda>i. r ! (i + 2)) (np_where (\<lambda>s. s < iEnd) (start_times_of c t (r ! 0)))"
    by simp
  have "np_int64 ?q = ?q"
    using q rest tot Cons.prems(4) by (intro np_int64_id) linarith+
  moreover have "np_int64 (ss_cnt st + ?q) = ss_cnt st + ?q"
    using q rest tot Cons.prems(4) by (intro np_int64_id) linarith+
  ultimately have c1: "ss_cnt st1 = ss_cnt st + ?q"
    unfolding st1(3) eq by simp
  have p4: "0 \<le> ss_cnt st1"
    using c1 q(1) Cons.prems(4) by simp
  have p5: "ss_cnt st1 + sum_list (map (\<lambda>r. sum_list (drop 2 r)) rs) < 2 ^ 63"
    using c1 q(2) tot by linarith
  obtain st' where st': "process_samples c t iStart iEnd st1 rs = Inr st'"
      "ss_cnt st' = ss_cnt st1 + counted c t iEnd rs"
    using Cons.IH [OF rs st1(2) p4 p5] by blast
  show ?case
    using st1(1) st' c1 by (simp add: counted_def)
qed

text \<open>
  C7 (as amended). For tables of \<open>H\<close> bins and a buffer of rows with \<open>H\<close> non-negative counts
  each, whose counts together stay below \<open>2^63\<close>, \<open>process_interval\<close> returns; it reports a
  result exactly when the sum \<open>n\<close>, over the buffered rows, of the counts of the bins that
  start before the end of the interval is positive, and the sample count of that result is
  \<open>n\<close>. \<open>n\<close> is at most the sum of all the counts of the buffered rows, with equality when
  every bin of every buffered row starts before the end of the interval. It is a number of
  counted operations, not of rows, and it is a bound for one result, not for their sum.
\<close>

theorem process_interval_sample_count:
  assumes "length (bin_vals t) = H" "length (lower_bin_vals t) = H" "length (upper_bin_vals t) = H"
    and "\<forall>r \<in> set samples. length r = H + 2"
    and "\<forall>r \<in> set samples. \<forall>x \<in> set (drop 2 r). 0 \<le> x"
    and "sum_list (map (\<lambda>r. sum_list (drop 2 r)) samples) < 2 ^ 63"
  shows "\<exists>res. process_interval c H t samples iStart iEnd = Inr res \<and>
           map_option res_ss_cnt res
             = (if 0 < counted c t iEnd samples then Some (counted c t iEnd samples) else None) \<and>
           counted c t iEnd samples \<le> sum_list (map (\<lambda>r. sum_list (drop 2 r)) samples) \<and>
           ((\<forall>r \<in> set samples. \<forall>s \<in> set (start_times_of c t (r ! 0)). s < iEnd) \<longrightarrow>
              counted c t iEnd samples = sum_list (map (\<lambda>r. sum_list (drop 2 r)) samples))"
proof -
  let ?init = "\<lparr> iHist = replicate H (Fin 0), ss_cnt = 0, mn_bin_val = None, mx_bin_val = None \<rparr>"
  have i: "length (iHist ?init) = H" "0 \<le> ss_cnt ?init"
      "ss_cnt ?init + sum_list (map (\<lambda>r. sum_list (drop 2 r)) samples) < 2 ^ 63"
    using assms(6) by simp_all
  from process_samples_count [OF assms(1-5) i, of c iStart iEnd]
  obtain st where st: "process_samples c t iStart iEnd ?init samples = Inr st"
      "ss_cnt st = counted c t iEnd samples"
    by auto
  have "\<not> list_ex (\<lambda>r. length r < 2) samples"
    using assms(4) by (auto simp: list_ex_iff)
  then have "\<exists>res. process_interval c H t samples iStart iEnd = Inr res \<and>
           map_option res_ss_cnt res
             = (if 0 < counted c t iEnd samples then Some (counted c t iEnd samples) else None)"
    by (simp add: process_interval_def st)
  then show ?thesis
    using counted_le(1,3) [OF assms(1,4,5), of c iEnd] by blast
qed

theorem process_interval_sample_count_witness:
  "\<exists>res. process_interval \<lparr>interval = 1, max_latency = 20\<rparr> 5 (make_bin_tables 5 6) [[11, 0, 0, 0, 0, 0, 3]] 9 10
            = Inr res \<and> map_option res_ss_cnt res = Some 3 \<and>
          counted \<lparr>interval = 1, max_latency = 20\<rparr> (make_bin_tables 5 6) 10 [[11, 0, 0, 0, 0, 0, 3]] = 3"
proof -
  have c: "counted \<lparr>interval = 1, max_latency = 20\<rparr> (make_bin_tables 5 6) 10 [[11, 0, 0, 0, 0, 0, 3]] = 3"
    by code_simp
  have l: "length (bin_vals (make_bin_tables 5 6)) = 5" "length (lower_bin_vals (make_bin_tables 5 6)) = 5"
      "length (upper_bin_vals (make_bin_tables 5 6)) = 5"
    by (simp_all add: make_bin_tables_def)
  show ?thesis
    using process_interval_sample_count [OF l, of "[[11, 0, 0, 0, 0, 0, 3]]"
        "\<lparr>interval = 1, max_latency = 20\<rparr>" 9 10]
    by (simp add: c)
qed

text \<open>
  Without the bound on the counts the total wraps around: two rows with a count of \<open>2^62\<close>
  each add up to \<open>-2^63\<close>, and no result is reported.
\<close>

lemma process_interval_wraps:
  "process_interval \<lparr>interval = 1000, max_latency = 20\<rparr> 1 (make_bin_tables 1 6)
      [[1000, 0, 4611686018427387904], [1000, 1, 4611686018427387904]] 0 1000 = Inr None"
  by code_simp

text \<open>
  C7 as stated fails: with the default options (interval 1000, 20 seconds of lookahead, 29
  bins at coarseness 6 for the default group count of 29), one file with the single row of
  end time 1010 and a count of 3 in bin 0 gives two results, for the intervals ending at
  1000 and at 2000, each with the sample count 3: the row is still buffered when the second
  interval is processed. Their sum 6 exceeds the number of input rows, 1, and also the sum
  of all the counts of the input, 3.
\<close>

theorem main_sample_count_exceeds_rows:
  "main \<lparr>interval = 1000, max_latency = 20\<rparr> 29 6
      [Some [[[1010, 0, 0, 3, 0, 0, 0, 0, 0, 0, 0, 0, 0, 0, 0, 0, 0, 0, 0, 0, 0, 0, 0, 0, 0, 0, 0, 0, 0, 0, 0, 0]]]]
      10000
     = Some ([\<lparr>res_end = 1000, res_mn = Some 0, res_ss_cnt = 3,
                res_vs = bin_vals (make_bin_tables 29 6),
                res_ws = Fin (91881 / 31252) # replicate 28 (Fin 0),
                res_mx = Some 130\<rparr>,
              \<lparr>res_end = 2000, res_mn = Some 0, res_ss_cnt = 3,
                res_vs = bin_vals (make_bin_tables 29 6),
                res_ws = Fin (1875 / 31252) # replicate 28 (Fin 0),
                res_mx = Some 130\<rparr>], None) \<and>
   \<not> (sum_list (map res_ss_cnt (fst (the (main \<lparr>interval = 1000, max_latency = 20\<rparr> 29 6
      [Some [[[1010, 0, 0, 3, 0, 0, 0, 0, 0, 0, 0, 0, 0, 0, 0, 0, 0, 0, 0, 0, 0, 0, 0, 0, 0, 0, 0, 0, 0, 0, 0, 0]]]]
      10000))))
        \<le> int (length (file_rows (Some [[[1010::int, 0, 0, 3, 0, 0, 0, 0, 0, 0, 0, 0, 0, 0, 0, 0, 0, 0, 0, 0, 0, 0, 0, 0, 0, 0, 0, 0, 0, 0, 0, 0]]])))) \<and>
   \<not> (sum_list (map res_ss_cnt (fst (the (main \<lparr>interval = 1000, max_latency = 20\<rparr> 29 6
      [Some [[[1010, 0, 0, 3, 0, 0, 0, 0, 0, 0, 0, 0, 0, 0, 0, 0, 0, 0, 0, 0, 0, 0, 0, 0, 0, 0, 0, 0, 0, 0, 0, 0]]]]
      10000))))
        \<le> sum_list (drop 3 [1010::int, 0, 0, 3, 0, 0, 0, 0, 0, 0, 0, 0, 0, 0, 0, 0, 0, 0, 0, 0, 0, 0, 0, 0, 0, 0, 0, 0, 0, 0, 0, 0]))"
  by code_simp

section \<open>Properties of the weighted percentile\<close>

lemma cumsum_from_replicate:
  "cumsum_from a (replicate n w) = map (\<lambda>k. a + real (k + 1) * w) [0..<n]"
proof (induction n arbitrary: a)
  case 0
  then show ?case by simp
next
  case (Suc n)
  have "map (\<lambda>k. a + real (k + 1) * w) [0..<Suc n]
          = (a + w) # map (\<lambda>k. (a + w) + real (k + 1) * w) [0..<n]"
    by (simp add: upt_conv_Cons map_Suc_upt [symmetric] algebra_simps del: upt_Suc)
  then show ?case
    using Suc [of "a + w"] by simp
qed

lemma uniform_cdf:
  assumes "0 < w"
  shows "map (\<lambda>(c, x). 100 * (c - x / 2) / sum_list (replicate n w))
           (zip (cumsum (replicate n w)) (replicate n w)) = map (step_pos n) [0..<n]"
proof (rule nth_equalityI)
  show "length (map (\<lambda>(c, x). 100 * (c - x / 2) / sum_list (replicate n w))
           (zip (cumsum (replicate n w)) (replicate n w))) = length (map (step_pos n) [0..<n])"
    by (simp add: cumsum_def cumsum_from_replicate)
next
  fix k
  assume "k < length (map (\<lambda>(c, x). 100 * (c - x / 2) / sum_list (replicate n w))
           (zip (cumsum (replicate n w)) (replicate n w)))"
  then have k: "k < n"
    by (simp add: cumsum_def cumsum_from_replicate)
  have "((1 + real k) * w - w / 2) = (real k + 1 / 2) * w"
    by (simp add: algebra_simps)
  then have "100 * ((1 + real k) * w - w / 2) / (real n * w) = 100 * (real k + 1 / 2) / real n"
    using assms by simp
  then show "map (\<lambda>(c, x). 100 * (c - x / 2) / sum_list (replicate n w))
           (zip (cumsum (replicate n w)) (replicate n w)) ! k = map (step_pos n) [0..<n] ! k"
    using k by (simp add: cumsum_def cumsum_from_replicate sum_list_replicate step_pos_def)
qed

lemma step_pos_bracket:
  assumes "0 < n"
  shows "step_pos n k \<le> p \<longleftrightarrow> real k \<le> p * real n / 100 - 1 / 2"
    and "p < step_pos n k \<longleftrightarrow> p * real n / 100 - 1 / 2 < real k"
  using assms by (auto simp: step_pos_def field_simps)

lemma interp_scan_steps:
  assumes "a < n" and "step_pos n a \<le> p"
  shows "interp_scan p (map (\<lambda>k. (step_pos n k, s ! k)) [a..<n]) =
           (if step_pos n (n - 1) \<le> p then s ! (n - 1)
            else let k = nat \<lfloor>p * real n / 100 - 1 / 2\<rfloor>
                 in s ! k + (s ! (k + 1) - s ! k) * (p - step_pos n k) / (step_pos n (k + 1) - step_pos n k))"
  using assms
proof (induction "n - a" arbitrary: a)
  case 0
  then show ?case by simp
next
  case (Suc d)
  have n: "0 < n"
    using Suc.prems(1) by simp
  show ?case
  proof (cases "Suc a = n")
    case True
    then have "[a..<n] = [a]"
      by (metis upt_conv_Cons upt_eq_Nil_conv lessI order_refl)
    moreover have "n - 1 = a"
      using True by simp
    ultimately show ?thesis
      using Suc.prems(2) by simp
  next
    case False
    then have lt: "Suc a < n"
      using Suc.prems(1) by simp
    have l: "[a..<n] = a # Suc a # [Suc (Suc a)..<n]" and l': "[Suc a..<n] = Suc a # [Suc (Suc a)..<n]"
      using lt by (simp_all add: upt_conv_Cons)
    show ?thesis
    proof (cases "p < step_pos n (Suc a)")
      case True
      have "real a \<le> p * real n / 100 - 1 / 2" "p * real n / 100 - 1 / 2 < real a + 1"
        using Suc.prems(2) True step_pos_bracket [OF n] by (simp_all add: add.commute)
      then have "\<lfloor>p * real n / 100 - 1 / 2\<rfloor> = int a"
        by (simp add: floor_unique)
      then have k: "nat \<lfloor>p * real n / 100 - 1 / 2\<rfloor> = a"
        by simp
      have "step_pos n (Suc a) \<le> step_pos n (n - 1)"
        using lt n by (simp add: step_pos_def divide_right_mono)
      then have nc: "\<not> step_pos n (n - 1) \<le> p"
        using True by simp
      show ?thesis
        unfolding l using True nc by (simp add: k Let_def)
    next
      case False
      then have ge: "step_pos n (Suc a) \<le> p"
        by simp
      have "d = n - Suc a"
        using Suc.hyps(2) by simp
      from Suc.hyps(1) [OF this lt ge] show ?thesis
        unfolding l l' using False by simp
    qed
  qed
qed

lemma collect_map_Inr:
  assumes "\<And>p. f p = Inr (g p)"
  shows "collect (map f ps) = Inr (map g ps)"
  by (induction ps) (simp_all add: assms)

lemma np_interp_steps:
  assumes "0 < n" and "length s = n"
  shows "np_interp p (map (step_pos n) [0..<n]) s =
           Inr (if p \<le> step_pos n 0 then s ! 0
                else if step_pos n (n - 1) \<le> p then s ! (n - 1)
                else let k = nat \<lfloor>p * real n / 100 - 1 / 2\<rfloor>
                     in s ! k + (s ! (k + 1) - s ! k) * (p - step_pos n k) / (step_pos n (k + 1) - step_pos n k))"
proof -
  let ?xp = "map (step_pos n) [0..<n]"
  have ne: "?xp \<noteq> []" "s \<noteq> []"
    using assms by auto
  have hd: "hd ?xp = step_pos n 0" "hd s = s ! 0"
    using assms ne by (simp_all add: hd_map hd_conv_nth upt_conv_Cons)
  have "[0..<n] = [0..<n - 1] @ [n - 1]"
    using assms(1) by (metis Suc_diff_1 upt_Suc_append zero_le)
  then have "last ?xp = step_pos n (n - 1)"
    by (metis (no_types, lifting) last_map last_snoc snoc_eq_iff_butlast)
  moreover have "last s = s ! (n - 1)"
    using assms ne by (simp add: last_conv_nth)
  ultimately have last: "last ?xp = step_pos n (n - 1)" "last s = s ! (n - 1)"
    by simp_all
  have zip: "zip ?xp s = map (\<lambda>k. (step_pos n k, s ! k)) [0..<n]"
    using assms(2) by (intro nth_equalityI) simp_all
  have mono: "step_pos n 0 \<le> step_pos n (n - 1)"
    using assms(1) by (simp add: step_pos_def divide_right_mono)
  consider (left) "p < step_pos n 0" | (right) "step_pos n (n - 1) < p"
    | (mid) "step_pos n 0 \<le> p" "p \<le> step_pos n (n - 1)"
    by linarith
  then show ?thesis
  proof cases
    case left
    then show ?thesis
      using ne assms(2) by (simp add: np_interp_def hd)
  next
    case right
    then have "\<not> p < step_pos n 0" "\<not> p \<le> step_pos n 0"
      using mono by simp_all
    then show ?thesis
      using right ne assms(2) by (simp add: np_interp_def hd last)
  next
    case mid
    have scan: "interp_scan p (zip ?xp s) =
           (if step_pos n (n - 1) \<le> p then s ! (n - 1)
            else let k = nat \<lfloor>p * real n / 100 - 1 / 2\<rfloor>
                 in s ! k + (s ! (k + 1) - s ! k) * (p - step_pos n k) / (step_pos n (k + 1) - step_pos n k))"
      unfolding zip by (rule interp_scan_steps [OF assms(1) mid(1)])
    have np: "np_interp p ?xp s = Inr (interp_scan p (zip ?xp s))"
      using mid ne assms(2) by (simp add: np_interp_def hd last)
    show ?thesis
    proof (cases "p = step_pos n 0")
      case False
      then show ?thesis
        using mid(1) by (simp add: np scan)
    next
      case True
      show ?thesis
      proof (cases "step_pos n (n - 1) \<le> p")
        case True
        then have "step_pos n (n - 1) = step_pos n 0"
          using mono \<open>p = step_pos n 0\<close> by simp
        then have "n - 1 = 0"
          using assms(1) by (simp add: step_pos_def)
        then show ?thesis
          unfolding np scan using True \<open>p = step_pos n 0\<close> by simp
      next
        case False
        have "p * real n / 100 - 1 / 2 = 0"
          using assms(1) by (simp add: True step_pos_def)
        then have "nat \<lfloor>p * real n / 100 - 1 / 2\<rfloor> = 0"
          by simp
        then show ?thesis
          unfolding np scan using False True by (simp add: Let_def)
      qed
    qed
  qed
qed

lemma is_argsort_sorts:
  assumes "is_argsort idx vs"
  shows "list_all (\<lambda>i. i < length vs) idx" and "map (\<lambda>i. vs ! i) idx = sort vs"
    and "length idx = length vs"
proof -
  have m: "mset idx = mset [0..<length vs]" and s: "sorted (map (\<lambda>i. vs ! i) idx)"
    using assms by (simp_all add: is_argsort_def)
  have "set idx = set [0..<length vs]"
    using m by (rule mset_eq_setD)
  then show "list_all (\<lambda>i. i < length vs) idx"
    by (simp add: list_all_iff)
  have "mset (map (\<lambda>i. vs ! i) idx) = mset (map (\<lambda>i. vs ! i) [0..<length vs])"
    using m by (metis mset_map)
  then have "mset (map (\<lambda>i. vs ! i) idx) = mset vs"
    by (simp add: map_nth)
  then show "map (\<lambda>i. vs ! i) idx = sort vs"
    using s by (metis properties_for_sort)
  show "length idx = length vs"
    using m by (metis length_upt mset_eq_length minus_nat.diff_0)
qed

lemma np_argsort_is_argsort:
  "is_argsort (np_argsort vs) vs"
proof -
  let ?ps = "sort_key fst (zip vs [0..<length vs])"
  have "mset (map snd ?ps) = mset (map snd (zip vs [0..<length vs]))"
    by (metis mset_map mset_sort)
  then have m: "mset (np_argsort vs) = mset [0..<length vs]"
    by (simp add: np_argsort_def)
  have "vs ! snd q = fst q" if "q \<in> set ?ps" for q
  proof -
    have "q \<in> set (zip vs [0..<length vs])"
      using that by simp
    then show ?thesis
      by (auto simp: in_set_zip)
  qed
  then have "map (\<lambda>i. vs ! i) (map snd ?ps) = map fst ?ps"
    by simp
  then have "sorted (map (\<lambda>i. vs ! i) (np_argsort vs))"
    by (simp add: np_argsort_def del: map_map)
  then show ?thesis
    using m by (simp add: is_argsort_def)
qed

text \<open>
  C6. For every non-empty sequence of values, equal positive weights (one per value) and
  every list of targets, \<open>weighted_percentile\<close> returns, for each target, the reference
  unweighted percentile of the values; and so does its body for whichever ascending order
  \<open>np.argsort\<close> chooses among equal values. (The targets need not lie in \<open>[0, 100]\<close>.)
\<close>

theorem weighted_percentile_uniform:
  assumes "vs \<noteq> []" and "0 < w"
  shows "weighted_percentile percs vs (replicate (length vs) w)
           = Some (Inr (map (reference_percentile vs) percs)) \<and>
         (\<forall>idx. is_argsort idx vs \<longrightarrow>
            weighted_percentile_at idx percs vs (replicate (length vs) w)
              = Some (Inr (map (reference_percentile vs) percs)))"
proof -
  let ?n = "length vs"
  have n: "0 < ?n"
    using assms(1) by simp
  have at: "weighted_percentile_at idx percs vs (replicate ?n w)
              = Some (Inr (map (reference_percentile vs) percs))" if "is_argsort idx vs" for idx
  proof -
    note a = is_argsort_sorts [OF that]
    have tv: "np_take vs idx = Inr (sort vs)"
      using a(1,2) by (simp add: np_take_def)
    have "map (\<lambda>i. replicate ?n w ! i) idx = replicate ?n w"
      using a(1,3) by (intro nth_equalityI) (simp_all add: list_all_length)
    then have tw: "np_take (replicate ?n w) idx = Inr (replicate ?n w)"
      using a(1) by (simp add: np_take_def)
    have sum: "sum_list (replicate ?n w) \<noteq> 0"
      using n assms(2) by (simp add: sum_list_replicate)
    have cdf: "map (\<lambda>(c, x). 100 * (c - x / 2) / sum_list (replicate ?n w))
                 (zip (cumsum (replicate ?n w)) (replicate ?n w)) = map (step_pos ?n) [0..<?n]"
      by (rule uniform_cdf [OF assms(2)])
    have ne: "map (step_pos ?n) [0..<?n] \<noteq> []"
      using n by simp
    have "np_interp p (map (step_pos ?n) [0..<?n]) (sort vs) = Inr (reference_percentile vs p)" for p
      using np_interp_steps [OF n, of "sort vs" p]
      by (simp add: reference_percentile_def step_pos_def Let_def)
    then have "collect (map (\<lambda>p. np_interp p (map (step_pos ?n) [0..<?n]) (sort vs)) percs)
                 = Inr (map (reference_percentile vs) percs)"
      by (rule collect_map_Inr)
    moreover have "weighted_percentile_at idx percs vs (replicate ?n w) =
             (if replicate ?n w \<noteq> [] \<and> sum_list (replicate ?n w) = 0 then None
              else if map (step_pos ?n) [0..<?n] = [] then Some (Inl ValueError)
              else Some (collect (map (\<lambda>p. np_interp p (map (step_pos ?n) [0..<?n]) (sort vs)) percs)))"
      by (simp only: weighted_percentile_at_def tv tw sum.case Let_def cdf)
    ultimately show ?thesis
      using sum ne by simp
  qed
  then show ?thesis
    using np_argsort_is_argsort by (simp add: weighted_percentile_def)
qed

theorem weighted_percentile_uniform_witness:
  "weighted_percentile [50, 90, 0, 100, 25] [3, 1, 2, 5] (replicate (length [3, 1, 2, 5 :: real]) 2)
     = Some (Inr (map (reference_percentile [3, 1, 2, 5]) [50, 90, 0, 100, 25])) \<and>
   weighted_percentile_at [1, 2, 0, 3] [50, 90, 0, 100, 25] [3, 1, 2, 5] (replicate (length [3, 1, 2, 5 :: real]) 2)
     = Some (Inr (map (reference_percentile [3, 1, 2, 5]) [50, 90, 0, 100, 25])) \<and>
   map (reference_percentile [3, 1, 2, 5]) [50, 90, 0, 100, 25] = [5 / 2, 5, 1, 5, 3 / 2]"
proof -
  have a: "is_argsort [1, 2, 0, 3] [3, 1, 2, 5]"
    by (simp add: is_argsort_def upt_conv_Cons numeral_eq_Suc)
  have r: "map (reference_percentile [3, 1, 2, 5]) [50, 90, 0, 100, 25] = [5 / 2, 5, 1, 5, 3 / 2]"
    by code_simp
  have v: "[3, 1, 2, 5 :: real] \<noteq> []" and w: "(0::real) < 2"
    by simp_all
  show ?thesis
    using weighted_percentile_uniform [OF v w, of "[50, 90, 0, 100, 25]"] a r by blast
qed

end
